theory Spec2Isabelle
  imports Complex_Main "HOL-Library.Multiset" "HOL-Library.Char_ord" "HOL-Library.Product_Lexorder"
begin

section \<open>Text model\<close>

text \<open>
  A source text is a \<^typ>\<open>string\<close>, read as a sequence of ASCII code points. The character
  classes below are Python's \<^verbatim>\<open>str.isalpha\<close>, \<^verbatim>\<open>str.isdigit\<close>, \<^verbatim>\<open>str.isalnum\<close>,
  \<^verbatim>\<open>str.isspace\<close> and the regular-expression classes \<^verbatim>\<open>\s\<close> and \<^verbatim>\<open>\w\<close> restricted
  to code points below 128; a character outside ASCII is in none of them.
  Scores are Python floats in the source; they are modelled as exact rationals.
\<close>

definition isalpha :: "char \<Rightarrow> bool" where
  "isalpha c = ((CHR ''a'' \<le> c \<and> c \<le> CHR ''z'') \<or> (CHR ''A'' \<le> c \<and> c \<le> CHR ''Z''))"

definition isdigit :: "char \<Rightarrow> bool" where
  "isdigit c = (CHR ''0'' \<le> c \<and> c \<le> CHR ''9'')"

definition isalnum :: "char \<Rightarrow> bool" where
  "isalnum c = (isalpha c \<or> isdigit c)"

definition isspace :: "char \<Rightarrow> bool" where
  "isspace c = (c = CHR '' '' \<or> (CHR 0x09 \<le> c \<and> c \<le> CHR 0x0D) \<or> (CHR 0x1C \<le> c \<and> c \<le> CHR 0x1F))"

definition isword :: "char \<Rightarrow> bool" where
  "isword c = (isalnum c \<or> c = CHR ''_'')"

text \<open>The character class \<^verbatim>\<open>[=+\-*/(){}[\];<>!&|,.]\<close> of the operator pattern.\<close>

definition isop :: "char \<Rightarrow> bool" where
  "isop c = (c \<in> set ''=+-*/(){}[];<>!&|,.'')"

text \<open>\<^verbatim>\<open>sep.join(xs)\<close>.\<close>

fun join :: "string \<Rightarrow> string list \<Rightarrow> string" where
  "join sep [] = []"
| "join sep [x] = x"
| "join sep (x # y # ys) = x @ sep @ join sep (y # ys)"

text \<open>\<^verbatim>\<open>s.split(d)\<close> for a one-character separator: never empty, keeps empty fields.\<close>

fun split_on :: "char \<Rightarrow> string \<Rightarrow> string list" where
  "split_on d [] = [[]]"
| "split_on d (c # cs) =
     (if c = d then [] # split_on d cs
      else (case split_on d cs of l # ls \<Rightarrow> (c # l) # ls | [] \<Rightarrow> [[c]]))"

text \<open>\<^verbatim>\<open>s.split()\<close>: fields between runs of whitespace, no empty field.\<close>

function split_ws :: "string \<Rightarrow> string list" where
  "split_ws s =
     (case dropWhile isspace s of
        [] \<Rightarrow> []
      | c # cs \<Rightarrow> takeWhile (\<lambda>x. \<not> isspace x) (c # cs) # split_ws (dropWhile (\<lambda>x. \<not> isspace x) cs))"
  by pat_completeness auto
termination
proof (relation "measure length", goal_cases)
  case 1
  show ?case by simp
next
  case (2 s c cs)
  have "length (dropWhile (\<lambda>x. \<not> isspace x) cs) \<le> length cs"
    by (rule length_dropWhile_le)
  moreover have "length (c # cs) \<le> length s"
    using 2 length_dropWhile_le [of isspace s] by simp
  ultimately show ?case by simp
qed

text \<open>Decimal rendering of a natural number, as in \<^verbatim>\<open>f"VAR_{identifier_counter}"\<close>.\<close>

definition digit_char :: "nat \<Rightarrow> char" where
  "digit_char d = char_of (of_char (CHR ''0'') + d)"

function str_nat :: "nat \<Rightarrow> string" where
  "str_nat n = (if n < 10 then [digit_char n] else str_nat (n div 10) @ [digit_char (n mod 10)])"
  by pat_completeness auto
termination
  by (relation "measure id") auto

declare split_ws.simps [simp del] str_nat.simps [simp del]

section \<open>Normalizer: \<^verbatim>\<open>preprocess_cpp\<close>\<close>

record config =
  ignore_comments :: bool
  ignore_whitespace :: bool
  normalize_identifiers :: bool

text \<open>The configuration set by \<^verbatim>\<open>__init__\<close>.\<close>

definition default_config :: config where
  "default_config = \<lparr>ignore_comments = True, ignore_whitespace = True, normalize_identifiers = True\<rparr>"

text \<open>
  A configuration the option check boxes of the user interface can set: whitespace and
  identifiers are left as they are, so the normalized text keeps its lines.
\<close>

definition lines_config :: config where
  "lines_config = \<lparr>ignore_comments = True, ignore_whitespace = False, normalize_identifiers = False\<rparr>"

text \<open>Two more settings of the check boxes: identifier normalization off, and whitespace
  normalization alone.\<close>

definition literal_config :: config where
  "literal_config = \<lparr>ignore_comments = True, ignore_whitespace = True, normalize_identifiers = False\<rparr>"

definition whitespace_config :: config where
  "whitespace_config = \<lparr>ignore_comments = False, ignore_whitespace = True, normalize_identifiers = False\<rparr>"

text \<open>
  \<^verbatim>\<open>re.sub(r'/\*.*?\*/', '', code, flags=re.DOTALL)\<close>. At an opening \<^verbatim>\<open>/*\<close> the lazy
  \<^verbatim>\<open>.*?\<close> stops at the first \<^verbatim>\<open>*/\<close> that follows; with none, the pattern fails there
  and the scan moves one character on.
\<close>

fun find_close :: "string \<Rightarrow> string option" where
  "find_close (c # d # cs) = (if c = CHR ''*'' \<and> d = CHR ''/'' then Some cs else find_close (d # cs))"
| "find_close _ = None"

lemma find_close_length: "find_close xs = Some r \<Longrightarrow> length r < length xs"
  by (induction xs rule: find_close.induct) (auto split: if_splits)

function remove_block_comments :: "string \<Rightarrow> string" where
  "remove_block_comments [] = []"
| "remove_block_comments [c] = [c]"
| "remove_block_comments (c # d # cs) =
     (if c = CHR ''/'' \<and> d = CHR ''*'' then
        (case find_close cs of
           Some r \<Rightarrow> remove_block_comments r
         | None \<Rightarrow> c # remove_block_comments (d # cs))
      else c # remove_block_comments (d # cs))"
  by pat_completeness auto
termination
  by (relation "measure length") (auto dest: find_close_length)

text \<open>
  \<^verbatim>\<open>re.sub(r'//.*?$', '', code, flags=re.MULTILINE)\<close>: from \<^verbatim>\<open>//\<close> up to, and not
  including, the next newline (or to the end of the text).
\<close>

function remove_line_comments :: "string \<Rightarrow> string" where
  "remove_line_comments [] = []"
| "remove_line_comments [c] = [c]"
| "remove_line_comments (c # d # cs) =
     (if c = CHR ''/'' \<and> d = CHR ''/'' then remove_line_comments (dropWhile (\<lambda>x. x \<noteq> CHR 0x0A) cs)
      else c # remove_line_comments (d # cs))"
  by pat_completeness auto
termination
  by (relation "measure length") (auto simp: less_Suc_eq_le intro: le_trans [OF length_dropWhile_le])

text \<open>\<^verbatim>\<open>re.sub(r'\s+', ' ', code)\<close>.\<close>

function collapse_ws :: "string \<Rightarrow> string" where
  "collapse_ws [] = []"
| "collapse_ws (c # cs) =
     (if isspace c then CHR '' '' # collapse_ws (dropWhile isspace cs) else c # collapse_ws cs)"
  by pat_completeness auto
termination
  by (relation "measure length") (auto simp: less_Suc_eq_le length_dropWhile_le)

text \<open>
  \<^verbatim>\<open>re.sub(r'\s*([=+\-*/(){}[\];<>!&|,.])\s*', r'\1', code)\<close>. The pattern matches at a
  position exactly when the maximal run of whitespace there is followed by an operator
  character; the match then also takes the maximal run of whitespace after it.
\<close>

function strip_op_ws :: "string \<Rightarrow> string" where
  "strip_op_ws [] = []"
| "strip_op_ws (c # cs) =
     (case dropWhile isspace (c # cs) of
        [] \<Rightarrow> c # strip_op_ws cs
      | x # rest \<Rightarrow>
          if isop x then x # strip_op_ws (dropWhile isspace rest)
          else c # strip_op_ws cs)"
  by pat_completeness auto
termination
proof (relation "measure length", goal_cases)
  case 1
  show ?case by simp
next
  case (2 c cs)
  show ?case by simp
next
  case (3 c cs x rest)
  have "length (x # rest) \<le> length (c # cs)"
    using 3(1) length_dropWhile_le [of isspace "c # cs"] by simp
  moreover have "length (dropWhile isspace rest) \<le> length rest"
    by (rule length_dropWhile_le)
  ultimately show ?case by simp
next
  case (4 c cs x rest)
  show ?case by simp
qed

definition cpp_keywords :: "string list" where
  "cpp_keywords =
     [''auto'', ''break'', ''case'', ''char'', ''const'', ''continue'',
      ''default'', ''do'', ''double'', ''else'', ''enum'', ''extern'',
      ''float'', ''for'', ''goto'', ''if'', ''int'', ''long'', ''register'',
      ''return'', ''short'', ''signed'', ''sizeof'', ''static'', ''struct'',
      ''switch'', ''typedef'', ''union'', ''unsigned'', ''void'', ''volatile'',
      ''while'', ''class'', ''namespace'', ''try'', ''catch'', ''new'',
      ''delete'', ''public'', ''private'', ''protected'', ''template'',
      ''virtual'', ''friend'', ''inline'', ''operator'', ''using'', ''throw'']"

text \<open>
  The scan of a quoted literal, entered just after the opening quote: up to and including
  the closing quote, a backslash skipping the character after it; an unterminated literal
  runs to the end of the text.
\<close>

fun skip_string :: "char \<Rightarrow> string \<Rightarrow> string" where
  "skip_string q [] = []"
| "skip_string q [c] = []"
| "skip_string q (c # d # cs) =
     (if c = q then d # cs
      else if c = CHR 0x5C then skip_string q cs
      else skip_string q (d # cs))"

lemma skip_string_length: "length (skip_string q cs) \<le> length cs"
  by (induction q cs rule: skip_string.induct) auto

text \<open>
  The tokenizer loop of \<^verbatim>\<open>preprocess_cpp\<close>: the remaining text, the identifier map and the
  identifier counter are the loop state; the result is the token list in the order of the
  \<^verbatim>\<open>tokens.append\<close> calls.
\<close>

function tokenize :: "string \<Rightarrow> (string \<rightharpoonup> string) \<Rightarrow> nat \<Rightarrow> string list" where
  "tokenize [] m n = []"
| "tokenize (c # cs) m n =
     (if isalpha c \<or> c = CHR ''_'' then
        (let word = takeWhile isword (c # cs); rest = dropWhile isword (c # cs) in
         if word \<in> set cpp_keywords then word # tokenize rest m n
         else (case m word of
                 None \<Rightarrow> (''VAR_'' @ str_nat n) # tokenize rest (m(word \<mapsto> ''VAR_'' @ str_nat n)) (n + 1)
               | Some v \<Rightarrow> v # tokenize rest m n))
      else if isdigit c then
        ''NUM'' # tokenize (dropWhile (\<lambda>x. isdigit x \<or> x = CHR ''.'') (c # cs)) m n
      else if c = CHR 0x22 \<or> c = CHR 0x27 then
        ''STR'' # tokenize (skip_string c cs) m n
      else [c] # tokenize cs m n)"
  by pat_completeness auto
termination
proof (relation "measure (\<lambda>(s, m, n). length s)", goal_cases)
  case 1
  show ?case by simp
next
  case (2 c cs m n word rest)
  then have "rest = dropWhile isword cs" by (auto simp: isword_def isalnum_def)
  then show ?case by (simp add: less_Suc_eq_le length_dropWhile_le)
next
  case (3 c cs m n word rest)
  then have "rest = dropWhile isword cs" by (auto simp: isword_def isalnum_def)
  then show ?case by (simp add: less_Suc_eq_le length_dropWhile_le)
next
  case (4 c cs m n word rest v)
  then have "rest = dropWhile isword cs" by (auto simp: isword_def isalnum_def)
  then show ?case by (simp add: less_Suc_eq_le length_dropWhile_le)
next
  case (5 c cs m n)
  then show ?case by (simp add: less_Suc_eq_le length_dropWhile_le)
next
  case (6 c cs m n)
  then show ?case by (simp add: less_Suc_eq_le skip_string_length)
next
  case (7 c cs m n)
  show ?case by simp
qed

definition preprocess_cpp :: "config \<Rightarrow> string \<Rightarrow> string" where
  "preprocess_cpp cfg code =
     (let code1 = (if ignore_comments cfg then remove_line_comments (remove_block_comments code) else code);
          code2 = (if ignore_whitespace cfg then strip_op_ws (collapse_ws code1) else code1)
      in if normalize_identifiers cfg then join '' '' (tokenize code2 Map.empty 0) else code2)"

text \<open>
  The Normalizer in the words of the specification, for comparison with \<open>preprocess_cpp\<close>:
  the text is always tokenized, and with \<^verbatim>\<open>normalizeIdentifiers\<close> off an identifier is kept
  as it is spelled; the output is the token sequence joined by single spaces.
\<close>

function tokenize_literal_spec :: "string \<Rightarrow> string list" where
  "tokenize_literal_spec [] = []"
| "tokenize_literal_spec (c # cs) =
     (if isalpha c \<or> c = CHR ''_'' then
        takeWhile isword (c # cs) # tokenize_literal_spec (dropWhile isword cs)
      else if isdigit c then
        ''NUM'' # tokenize_literal_spec (dropWhile (\<lambda>x. isdigit x \<or> x = CHR ''.'') cs)
      else if c = CHR 0x22 \<or> c = CHR 0x27 then
        ''STR'' # tokenize_literal_spec (skip_string c cs)
      else [c] # tokenize_literal_spec cs)"
  by pat_completeness auto
termination
  by (relation "measure length")
     (auto simp: less_Suc_eq_le length_dropWhile_le skip_string_length)

definition normalizer_spec :: "config \<Rightarrow> string \<Rightarrow> string" where
  "normalizer_spec cfg code =
     (let code1 = (if ignore_comments cfg then remove_line_comments (remove_block_comments code) else code);
          code2 = (if ignore_whitespace cfg then strip_op_ws (collapse_ws code1) else code1)
      in if normalize_identifiers cfg then join '' '' (tokenize code2 Map.empty 0)
         else join '' '' (tokenize_literal_spec code2))"

section \<open>Exceptions\<close>

text \<open>
  The exceptions the similarity pipeline can raise on text input: a division by zero, and
  \<^verbatim>\<open>min\<close> of an empty sequence or \<^verbatim>\<open>list.index\<close> of an absent element (both
  \<^verbatim>\<open>ValueError\<close>). A computation that may raise returns a sum, the exception on the left.
\<close>

datatype exn = ZeroDivisionError | ValueError

definition exn_bind :: "exn + 'a \<Rightarrow> ('a \<Rightarrow> exn + 'b) \<Rightarrow> exn + 'b" where
  "exn_bind m f = (case m of Inl e \<Rightarrow> Inl e | Inr x \<Rightarrow> f x)"

text \<open>True division \<^verbatim>\<open>a / b\<close> of two non-negative integers.\<close>

definition py_div :: "nat \<Rightarrow> nat \<Rightarrow> exn + rat" where
  "py_div a b = (if b = 0 then Inl ZeroDivisionError else Inr (of_nat a / of_nat b))"

definition py_min :: "nat list \<Rightarrow> exn + nat" where
  "py_min xs = (case xs of [] \<Rightarrow> Inl ValueError | y # ys \<Rightarrow> Inr (fold min ys y))"

fun py_index :: "'a list \<Rightarrow> 'a \<Rightarrow> exn + nat" where
  "py_index [] v = Inl ValueError"
| "py_index (x # xs) v = (if x = v then Inr 0 else exn_bind (py_index xs v) (\<lambda>p. Inr (Suc p)))"

section \<open>Fingerprint engine: \<^verbatim>\<open>calculate_moss_similarity\<close>\<close>

text \<open>
  The hash \<^verbatim>\<open>int(hashlib.md5(kgram.encode()).hexdigest(), 16)\<close> is the parameter
  \<open>md5\<close>: any function from strings to natural numbers.
\<close>

definition get_kgram_hashes :: "(string \<Rightarrow> nat) \<Rightarrow> string \<Rightarrow> nat \<Rightarrow> nat list" where
  "get_kgram_hashes md5 code k =
     (let tokens = split_ws code in
      if length tokens < k then []
      else (let kgrams = map (\<lambda>i. join '' '' (take k (drop i tokens))) [0..<length tokens - k + 1]
            in map md5 kgrams))"

text \<open>
  The loop of \<^verbatim>\<open>winnow\<close> over \<^verbatim>\<open>enumerate(windows)\<close>; the state is the list
  \<^verbatim>\<open>fingerprints\<close> of (hash, position) pairs.
\<close>

fun winnow_loop :: "(nat \<times> nat list) list \<Rightarrow> (nat \<times> nat) list \<Rightarrow> exn + (nat \<times> nat) list" where
  "winnow_loop [] fingerprints = Inr fingerprints"
| "winnow_loop ((i, window) # rest) fingerprints =
     exn_bind (py_min window) (\<lambda>min_hash.
     exn_bind (py_index window min_hash) (\<lambda>p.
       (let min_pos = p + i in
        if fingerprints = [] \<or> fst (last fingerprints) \<noteq> min_hash
        then winnow_loop rest (fingerprints @ [(min_hash, min_pos)])
        else winnow_loop rest fingerprints)))"

definition winnow :: "nat list \<Rightarrow> nat \<Rightarrow> exn + nat list" where
  "winnow hashes w =
     (if length hashes < w then Inr hashes
      else (let windows = map (\<lambda>i. take w (drop i hashes)) [0..<length hashes - w + 1]
            in exn_bind (winnow_loop (enumerate 0 windows) []) (\<lambda>fingerprints.
               Inr (map fst fingerprints))))"

definition calculate_moss_similarity ::
  "config \<Rightarrow> (string \<Rightarrow> nat) \<Rightarrow> string \<Rightarrow> string \<Rightarrow> nat \<Rightarrow> nat \<Rightarrow> exn + rat" where
  "calculate_moss_similarity cfg md5 code1 code2 k w =
     (let processed_code1 = preprocess_cpp cfg code1;
          processed_code2 = preprocess_cpp cfg code2;
          hashes1 = get_kgram_hashes md5 processed_code1 k;
          hashes2 = get_kgram_hashes md5 processed_code2 k
      in exn_bind (winnow hashes1 w) (\<lambda>f1.
         exn_bind (winnow hashes2 w) (\<lambda>f2.
           (let fingerprints1 = set f1; fingerprints2 = set f2 in
            if fingerprints1 = {} \<or> fingerprints2 = {} then Inr 0
            else py_div (card (fingerprints1 \<inter> fingerprints2))
                        (card (fingerprints1 \<union> fingerprints2))))))"

text \<open>
  The winnowing step in the words of the specification: the minimum of every window of
  \<open>w\<close> consecutive hashes, taken at its leftmost position, appended only when it differs
  from the hash appended last; the whole list when it is shorter than \<open>w\<close>. The Jaccard
  similarity of two sets, 0 when either is empty.
\<close>

fun leftmost_pos :: "nat list \<Rightarrow> nat \<Rightarrow> nat" where
  "leftmost_pos [] v = 0"
| "leftmost_pos (x # xs) v = (if x = v then 0 else Suc (leftmost_pos xs v))"

definition leftmost_min :: "nat list \<Rightarrow> nat \<times> nat" where
  "leftmost_min window = (let m = Min (set window) in (m, leftmost_pos window m))"

definition append_if_differs :: "nat list \<Rightarrow> nat \<Rightarrow> nat list" where
  "append_if_differs fps h = (if fps \<noteq> [] \<and> last fps = h then fps else fps @ [h])"

definition winnow_spec :: "nat list \<Rightarrow> nat \<Rightarrow> nat list" where
  "winnow_spec hashes w =
     (if length hashes < w then hashes
      else foldl append_if_differs []
             (map (\<lambda>i. fst (leftmost_min (take w (drop i hashes)))) [0..<length hashes - w + 1]))"

definition jaccard_spec :: "nat set \<Rightarrow> nat set \<Rightarrow> rat" where
  "jaccard_spec A B = (if A = {} \<or> B = {} then 0 else of_nat (card (A \<inter> B)) / of_nat (card (A \<union> B)))"

section \<open>Structural analyzer: \<^verbatim>\<open>calculate_structure_similarity\<close>\<close>

text \<open>
  \<^verbatim>\<open>re.findall(r'\w+\s+(\w+)\s*\([^)]*\)\s*{[^}]*}', code)\<close>. Every quantified class of
  the pattern is followed by a piece that none of its characters can start, so the greedy
  choice is the only one that can succeed: \<open>match_function\<close> is the attempt at one start
  position, giving the captured name and the text after the match; the scan restarts there,
  or one character on after a failed attempt.
\<close>

lemma dropWhile_Cons_length: "dropWhile P xs = y # ys \<Longrightarrow> length ys < length xs"
proof -
  assume "dropWhile P xs = y # ys"
  then have "length (y # ys) \<le> length xs"
    using length_dropWhile_le [of P xs] by simp
  then show ?thesis by simp
qed

definition match_function :: "string \<Rightarrow> (string \<times> string) option" where
  "match_function s =
     (let w1 = takeWhile isword s; r1 = dropWhile isword s;
          s1 = takeWhile isspace r1; r2 = dropWhile isspace r1;
          name = takeWhile isword r2; r3 = dropWhile isword r2
      in if w1 = [] \<or> s1 = [] \<or> name = [] then None
         else (case dropWhile isspace r3 of
                 [] \<Rightarrow> None
               | p # r4 \<Rightarrow>
                   if p \<noteq> CHR ''('' then None
                   else (case dropWhile (\<lambda>x. x \<noteq> CHR '')'') r4 of
                           [] \<Rightarrow> None
                         | q # r5 \<Rightarrow>
                             (case dropWhile isspace r5 of
                                [] \<Rightarrow> None
                              | b # r6 \<Rightarrow>
                                  if b \<noteq> CHR ''{'' then None
                                  else (case dropWhile (\<lambda>x. x \<noteq> CHR ''}'') r6 of
                                          [] \<Rightarrow> None
                                        | e # r7 \<Rightarrow> Some (name, r7))))))"

lemma match_function_length:
  assumes "match_function s = Some (name, r)"
  shows "length r < length s"
proof -
  note d = dropWhile_Cons_length
  have le: "\<And>P xs. length (dropWhile P xs) \<le> length (xs :: string)"
    by (rule length_dropWhile_le)
  from assms obtain p r4 q r5 b r6 e where
    1: "dropWhile isspace (dropWhile isword (dropWhile isspace (dropWhile isword s))) = p # r4" and
    2: "dropWhile (\<lambda>x. x \<noteq> CHR '')'') r4 = q # r5" and
    3: "dropWhile isspace r5 = b # r6" and
    4: "dropWhile (\<lambda>x. x \<noteq> CHR ''}'') r6 = e # r"
    by (auto simp: match_function_def Let_def split: if_splits list.splits)
  have "length r < length r6" using d [OF 4] .
  also have "\<dots> < length r5" using d [OF 3] .
  also have "\<dots> < length r4" using d [OF 2] .
  also have "\<dots> < length (dropWhile isword (dropWhile isspace (dropWhile isword s)))" using d [OF 1] .
  also have "\<dots> \<le> length (dropWhile isspace (dropWhile isword s))" by (rule le)
  also have "\<dots> \<le> length (dropWhile isword s)" by (rule le)
  also have "\<dots> \<le> length s" by (rule le)
  finally show ?thesis .
qed

function findall_functions :: "string \<Rightarrow> string list" where
  "findall_functions [] = []"
| "findall_functions (c # cs) =
     (case match_function (c # cs) of
        Some (name, rest) \<Rightarrow> name # findall_functions rest
      | None \<Rightarrow> findall_functions cs)"
  by pat_completeness auto
termination
  by (relation "measure length") (auto dest: match_function_length)

text \<open>
  \<^verbatim>\<open>re.findall(r'class\s+(\w+)[^{]*{[^}]*}', code)\<close>. What the name group gives back
  on backtracking is taken by \<^verbatim>\<open>[^{]*\<close>, so the first success has the longest name.
\<close>

fun strip_prefix :: "string \<Rightarrow> string \<Rightarrow> string option" where
  "strip_prefix [] s = Some s"
| "strip_prefix (p # ps) [] = None"
| "strip_prefix (p # ps) (c # cs) = (if p = c then strip_prefix ps cs else None)"

definition match_class :: "string \<Rightarrow> (string \<times> string) option" where
  "match_class s =
     (case strip_prefix ''class'' s of
        None \<Rightarrow> None
      | Some r0 \<Rightarrow>
          (let s1 = takeWhile isspace r0; r1 = dropWhile isspace r0;
               name = takeWhile isword r1; r2 = dropWhile isword r1
           in if s1 = [] \<or> name = [] then None
              else (case dropWhile (\<lambda>x. x \<noteq> CHR ''{'') r2 of
                      [] \<Rightarrow> None
                    | b # r3 \<Rightarrow>
                        (case dropWhile (\<lambda>x. x \<noteq> CHR ''}'') r3 of
                           [] \<Rightarrow> None
                         | e # r4 \<Rightarrow> Some (name, r4)))))"

lemma strip_prefix_length: "strip_prefix p s = Some r \<Longrightarrow> length r \<le> length s"
  by (induction p s rule: strip_prefix.induct) (auto split: if_splits)

lemma match_class_length:
  assumes "match_class s = Some (name, r)"
  shows "length r < length s"
proof -
  note d = dropWhile_Cons_length
  have le: "\<And>P xs. length (dropWhile P xs) \<le> length (xs :: string)"
    by (rule length_dropWhile_le)
  from assms obtain r0 b r3 e where
    0: "strip_prefix ''class'' s = Some r0" and
    1: "dropWhile (\<lambda>x. x \<noteq> CHR ''{'') (dropWhile isword (dropWhile isspace r0)) = b # r3" and
    2: "dropWhile (\<lambda>x. x \<noteq> CHR ''}'') r3 = e # r"
    by (auto simp: match_class_def Let_def split: if_splits list.splits option.splits)
  have "length r < length r3" using d [OF 2] .
  also have "\<dots> < length (dropWhile isword (dropWhile isspace r0))" using d [OF 1] .
  also have "\<dots> \<le> length (dropWhile isspace r0)" by (rule le)
  also have "\<dots> \<le> length r0" by (rule le)
  also have "\<dots> \<le> length s" using 0 by (rule strip_prefix_length)
  finally show ?thesis .
qed

function findall_classes :: "string \<Rightarrow> string list" where
  "findall_classes [] = []"
| "findall_classes (c # cs) =
     (case match_class (c # cs) of
        Some (name, rest) \<Rightarrow> name # findall_classes rest
      | None \<Rightarrow> findall_classes cs)"
  by pat_completeness auto
termination
  by (relation "measure length") (auto dest: match_class_length)

text \<open>
  \<^verbatim>\<open>len(re.findall(rf'\b{ctrl}\b', code))\<close> for a keyword \<open>ctrl\<close> of word characters:
  the pattern matches where \<open>ctrl\<close> starts, the character before (if any) is not a word
  character and neither is the character after (if any). The flag tells whether the
  character before the current position is a word character. A position inside a match
  follows a word character, so stepping one character on finds the same matches as
  restarting after each match.
\<close>

fun count_word :: "string \<Rightarrow> bool \<Rightarrow> string \<Rightarrow> nat" where
  "count_word ctrl prev [] = 0"
| "count_word ctrl prev (c # cs) =
     (case strip_prefix ctrl (c # cs) of
        Some rest \<Rightarrow>
          (if \<not> prev \<and> (case rest of [] \<Rightarrow> True | x # _ \<Rightarrow> \<not> isword x)
           then Suc (count_word ctrl (isword c) cs)
           else count_word ctrl (isword c) cs)
      | None \<Rightarrow> count_word ctrl (isword c) cs)"

record structure_profile =
  "functions" :: "string multiset"
  classes :: "string multiset"
  control_structures :: "(string \<times> nat) list"

text \<open>
  The Counters are multisets; the dictionary of control-keyword counts is the list of
  its items in insertion order (its six keys are distinct).
\<close>

definition extract_structure :: "string \<Rightarrow> structure_profile" where
  "extract_structure code =
     \<lparr>functions = mset (findall_functions code),
      classes = mset (findall_classes code),
      control_structures =
        map (\<lambda>ctrl. (ctrl, count_word ctrl False code))
            [''if'', ''else'', ''for'', ''while'', ''switch'', ''case'']\<rparr>"

definition count_similarity :: "string multiset \<Rightarrow> string multiset \<Rightarrow> exn + rat" where
  "count_similarity counter1 counter2 =
     (if counter1 = {#} \<and> counter2 = {#} then Inr 1
      else if counter1 = {#} \<or> counter2 = {#} then Inr 0
      else (let common = size (counter1 \<inter># counter2);
                total = size (counter1 \<union># counter2)
            in if total > 0 then py_div common total else Inr 0))"

definition dict_get :: "(string \<times> nat) list \<Rightarrow> string \<Rightarrow> nat \<Rightarrow> nat" where
  "dict_get d key dflt = (case map_of d key of None \<Rightarrow> dflt | Some v \<Rightarrow> v)"

definition control_similarity :: "(string \<times> nat) list \<Rightarrow> (string \<times> nat) list \<Rightarrow> exn + rat" where
  "control_similarity ctrl1 ctrl2 =
     (let all_keys = set (map fst ctrl1) \<union> set (map fst ctrl2) in
      if all_keys = {} then Inr 1
      else (let differences = (\<Sum>key\<in>all_keys. nat \<bar>int (dict_get ctrl1 key 0) - int (dict_get ctrl2 key 0)\<bar>);
                max_possible_diff = (\<Sum>key\<in>all_keys. max (dict_get ctrl1 key 0) (dict_get ctrl2 key 0))
            in if max_possible_diff > 0
               then exn_bind (py_div differences max_possible_diff) (\<lambda>q. Inr (1 - q))
               else Inr (1 - 0)))"

definition calculate_structure_similarity :: "string \<Rightarrow> string \<Rightarrow> exn + rat" where
  "calculate_structure_similarity code1 code2 =
     (let structure1 = extract_structure code1;
          structure2 = extract_structure code2
      in exn_bind (count_similarity (functions structure1) (functions structure2)) (\<lambda>func_sim.
         exn_bind (count_similarity (classes structure1) (classes structure2)) (\<lambda>class_sim.
         exn_bind (control_similarity (control_structures structure1) (control_structures structure2)) (\<lambda>ctrl_sim.
           Inr (4 / 10 * func_sim + 3 / 10 * class_sim + 3 / 10 * ctrl_sim)))))"

section \<open>Sequence alignment: \<^verbatim>\<open>difflib.SequenceMatcher\<close>\<close>

text \<open>
  The source calls \<^verbatim>\<open>difflib.SequenceMatcher(None, a, b)\<close> of the Python standard library,
  on lists of lines and on strings. The definitions follow the library's code: with no junk
  predicate the set \<^verbatim>\<open>bjunk\<close> is empty, so the two loops of \<^verbatim>\<open>find_longest_match\<close> that
  extend a match over junk never run and are left out; the automatic heuristic that drops
  popular elements of a long second sequence from \<^verbatim>\<open>b2j\<close> is kept.
\<close>

definition b2j :: "'a list \<Rightarrow> 'a \<Rightarrow> nat list" where
  "b2j b elt =
     (let idxs = filter (\<lambda>j. b ! j = elt) [0..<length b];
          n = length b
      in if n \<ge> 200 \<and> length idxs > n div 100 + 1 then [] else idxs)"

text \<open>
  The inner loop of \<^verbatim>\<open>find_longest_match\<close> over the positions \<open>j\<close> of \<^verbatim>\<open>a[i]\<close> in
  \<open>b\<close>; \<^verbatim>\<open>j2len.get(j-1, 0)\<close> has no entry for \<open>j = 0\<close>.
\<close>

fun flm_row ::
  "nat list \<Rightarrow> nat \<Rightarrow> nat \<Rightarrow> nat \<Rightarrow> (nat \<rightharpoonup> nat) \<Rightarrow> (nat \<rightharpoonup> nat) \<Rightarrow> nat \<times> nat \<times> nat
   \<Rightarrow> (nat \<rightharpoonup> nat) \<times> (nat \<times> nat \<times> nat)" where
  "flm_row [] i blo bhi j2len newj2len best = (newj2len, best)"
| "flm_row (j # js) i blo bhi j2len newj2len (besti, bestj, bestsize) =
     (if j < blo then flm_row js i blo bhi j2len newj2len (besti, bestj, bestsize)
      else if j \<ge> bhi then (newj2len, (besti, bestj, bestsize))
      else (let k = (if j = 0 then 0 else (case j2len (j - 1) of None \<Rightarrow> 0 | Some v \<Rightarrow> v)) + 1
            in if k > bestsize
               then flm_row js i blo bhi j2len (newj2len(j \<mapsto> k)) (i + 1 - k, j + 1 - k, k)
               else flm_row js i blo bhi j2len (newj2len(j \<mapsto> k)) (besti, bestj, bestsize)))"

fun flm_rows ::
  "'a list \<Rightarrow> 'a list \<Rightarrow> nat list \<Rightarrow> nat \<Rightarrow> nat \<Rightarrow> (nat \<rightharpoonup> nat) \<Rightarrow> nat \<times> nat \<times> nat
   \<Rightarrow> nat \<times> nat \<times> nat" where
  "flm_rows a b [] blo bhi j2len best = best"
| "flm_rows a b (i # is) blo bhi j2len best =
     (case flm_row (b2j b (a ! i)) i blo bhi j2len Map.empty best of
        (newj2len, best') \<Rightarrow> flm_rows a b is blo bhi newj2len best')"

function extend_left :: "'a list \<Rightarrow> 'a list \<Rightarrow> nat \<Rightarrow> nat \<Rightarrow> nat \<times> nat \<times> nat \<Rightarrow> nat \<times> nat \<times> nat" where
  "extend_left a b alo blo (besti, bestj, bestsize) =
     (if besti > alo \<and> bestj > blo \<and> a ! (besti - 1) = b ! (bestj - 1)
      then extend_left a b alo blo (besti - 1, bestj - 1, bestsize + 1)
      else (besti, bestj, bestsize))"
  by pat_completeness auto
termination
  by (relation "measure (\<lambda>(a, b, alo, blo, besti, bestj, bestsize). besti)") auto

function extend_right :: "'a list \<Rightarrow> 'a list \<Rightarrow> nat \<Rightarrow> nat \<Rightarrow> nat \<times> nat \<times> nat \<Rightarrow> nat \<times> nat \<times> nat" where
  "extend_right a b ahi bhi (besti, bestj, bestsize) =
     (if besti + bestsize < ahi \<and> bestj + bestsize < bhi \<and> a ! (besti + bestsize) = b ! (bestj + bestsize)
      then extend_right a b ahi bhi (besti, bestj, bestsize + 1)
      else (besti, bestj, bestsize))"
  by pat_completeness auto
termination
  by (relation "measure (\<lambda>(a, b, ahi, bhi, besti, bestj, bestsize). ahi - (besti + bestsize))") auto

definition find_longest_match :: "'a list \<Rightarrow> 'a list \<Rightarrow> nat \<Rightarrow> nat \<Rightarrow> nat \<Rightarrow> nat \<Rightarrow> nat \<times> nat \<times> nat" where
  "find_longest_match a b alo ahi blo bhi =
     extend_right a b ahi bhi
       (extend_left a b alo blo
          (flm_rows a b [alo..<ahi] blo bhi Map.empty (alo, blo, 0)))"

declare extend_left.simps [simp del] extend_right.simps [simp del]

text \<open>
  The match returned for the window \<open>[alo, ahi)\<close> of \<open>a\<close> lies inside that window; the loop
  of \<^verbatim>\<open>get_matching_blocks\<close> terminates because of it.
\<close>

definition in_range :: "nat \<Rightarrow> nat \<Rightarrow> nat \<times> nat \<times> nat \<Rightarrow> bool" where
  "in_range alo ahi best = (case best of (bi, bj, bs) \<Rightarrow> alo \<le> bi \<and> bi + bs \<le> max alo ahi)"

lemma flm_row_in_range:
  assumes "flm_row js i blo bhi j2len nj best = (nj', best')"
    and "\<forall>j v. j2len j = Some v \<longrightarrow> v \<le> i - alo"
    and "alo \<le> i" and "i < ahi"
    and "\<forall>j v. nj j = Some v \<longrightarrow> v \<le> i + 1 - alo"
    and "in_range alo ahi best"
  shows "in_range alo ahi best' \<and> (\<forall>j v. nj' j = Some v \<longrightarrow> v \<le> i + 1 - alo)"
  using assms
proof (induction js i blo bhi j2len nj best rule: flm_row.induct)
  case (1 i blo bhi j2len newj2len best)
  then show ?case by simp
next
  case (2 j js i blo bhi j2len newj2len besti bestj bestsize)
  define k where "k = (if j = 0 then 0 else (case j2len (j - 1) of None \<Rightarrow> 0 | Some v \<Rightarrow> v)) + 1"
  have kle: "k \<le> i + 1 - alo"
    using "2.prems"(2,3) by (auto simp: k_def split: option.splits) (metis Suc_diff_le Suc_le_mono)
  have k1: "1 \<le> k" by (simp add: k_def)
  have nj: "\<forall>j' v. (newj2len(j \<mapsto> k)) j' = Some v \<longrightarrow> v \<le> i + 1 - alo"
    using "2.prems"(5) kle by auto
  have rng: "in_range alo ahi (i + 1 - k, j + 1 - k, k)"
    using kle k1 "2.prems"(3,4) by (auto simp: in_range_def)
  show ?case
  proof (cases "j < blo")
    case True
    then show ?thesis using "2.IH"(1) "2.prems" by simp
  next
    case nlt: False
    show ?thesis
    proof (cases "j \<ge> bhi")
      case True
      then show ?thesis using nlt "2.prems" by simp
    next
      case False
      show ?thesis
      proof (cases "k > bestsize")
        case True
        have run: "flm_row js i blo bhi j2len (newj2len(j \<mapsto> k)) (i + 1 - k, j + 1 - k, k) = (nj', best')"
          using "2.prems"(1) nlt False True by (simp add: k_def Let_def)
        show ?thesis
          using "2.IH"(2) [OF nlt False refl True [unfolded k_def] run [unfolded k_def] "2.prems"(2,3,4) nj [unfolded k_def] rng [unfolded k_def]]
          by simp
      next
        case nk: False
        have run: "flm_row js i blo bhi j2len (newj2len(j \<mapsto> k)) (besti, bestj, bestsize) = (nj', best')"
          using "2.prems"(1) nlt False nk by (simp add: k_def Let_def)
        show ?thesis
          using "2.IH"(3) [OF nlt False refl nk [unfolded k_def] run [unfolded k_def] "2.prems"(2,3,4) nj [unfolded k_def] "2.prems"(6)]
          by simp
      qed
    qed
  qed
qed


lemma flm_rows_in_range:
  assumes "alo \<le> i0"
    and "\<forall>j v. j2len j = Some v \<longrightarrow> v \<le> i0 - alo"
    and "in_range alo ahi best"
  shows "in_range alo ahi (flm_rows a b [i0..<ahi] blo bhi j2len best)"
  using assms
proof (induction "ahi - i0" arbitrary: i0 j2len best)
  case 0
  then show ?case by simp
next
  case (Suc d)
  then have lt: "i0 < ahi" by simp
  obtain nj best' where row: "flm_row (b2j b (a ! i0)) i0 blo bhi j2len Map.empty best = (nj, best')"
    by (cases "flm_row (b2j b (a ! i0)) i0 blo bhi j2len Map.empty best") auto
  have step: "in_range alo ahi best' \<and> (\<forall>j v. nj j = Some v \<longrightarrow> v \<le> i0 + 1 - alo)"
    by (rule flm_row_in_range [OF row Suc.prems(2) Suc.prems(1) lt _ Suc.prems(3)]) simp
  have "in_range alo ahi (flm_rows a b [Suc i0..<ahi] blo bhi nj best')"
    using Suc.hyps(1) [of "Suc i0" nj best'] Suc.hyps(2) Suc.prems(1) step by simp
  then show ?case using lt row by (simp add: upt_rec [of i0 ahi])
qed

lemma extend_left_in_range:
  "in_range alo ahi best \<Longrightarrow> in_range alo ahi (extend_left a b alo blo best)"
proof (induction a b alo blo best rule: extend_left.induct)
  case (1 a b alo blo besti bestj bestsize)
  show ?case
  proof (cases "besti > alo \<and> bestj > blo \<and> a ! (besti - 1) = b ! (bestj - 1)")
    case True
    have "in_range alo ahi (besti - 1, bestj - 1, bestsize + 1)"
      using "1.prems" True by (auto simp: in_range_def)
    from "1.IH" [OF True this] True show ?thesis
      by (subst extend_left.simps) simp
  next
    case False
    then show ?thesis using "1.prems" by (subst extend_left.simps) auto
  qed
qed

lemma extend_right_in_range:
  "in_range alo ahi best \<Longrightarrow> in_range alo ahi (extend_right a b ahi bhi best)"
proof (induction a b ahi bhi best rule: extend_right.induct)
  case (1 a b ahi bhi besti bestj bestsize)
  show ?case
  proof (cases "besti + bestsize < ahi \<and> bestj + bestsize < bhi \<and> a ! (besti + bestsize) = b ! (bestj + bestsize)")
    case True
    have "in_range alo ahi (besti, bestj, bestsize + 1)"
      using "1.prems" True by (auto simp: in_range_def)
    from "1.IH" [OF True this] True show ?thesis
      by (subst extend_right.simps) simp
  next
    case False
    then show ?thesis using "1.prems" by (subst extend_right.simps) auto
  qed
qed

lemma find_longest_match_in_range:
  "in_range alo ahi (find_longest_match a b alo ahi blo bhi)"
  unfolding find_longest_match_def
  by (intro extend_right_in_range extend_left_in_range flm_rows_in_range) (simp_all add: in_range_def)

lemma find_longest_match_bounds:
  assumes "find_longest_match a b alo ahi blo bhi = (i, j, k)" and "k \<noteq> 0"
  shows "alo \<le> i \<and> i + k \<le> ahi"
  using find_longest_match_in_range [of alo ahi a b blo bhi] assms
  by (auto simp: in_range_def max_def split: if_splits)

text \<open>
  The work-list loop of \<^verbatim>\<open>get_matching_blocks\<close>: the head of the list is the entry that
  \<^verbatim>\<open>queue.pop()\<close> takes, the one appended last.
\<close>

function gmb_loop ::
  "'a list \<Rightarrow> 'a list \<Rightarrow> (nat \<times> nat \<times> nat \<times> nat) list \<Rightarrow> (nat \<times> nat \<times> nat) list
   \<Rightarrow> (nat \<times> nat \<times> nat) list" where
  "gmb_loop a b [] matching_blocks = matching_blocks"
| "gmb_loop a b ((alo, ahi, blo, bhi) # queue) matching_blocks =
     (case find_longest_match a b alo ahi blo bhi of
        (i, j, k) \<Rightarrow>
          if k \<noteq> 0 then
            (let queue1 = (if alo < i \<and> blo < j then (alo, i, blo, j) # queue else queue);
                 queue2 = (if i + k < ahi \<and> j + k < bhi then (i + k, ahi, j + k, bhi) # queue1 else queue1)
             in gmb_loop a b queue2 (matching_blocks @ [(i, j, k)]))
          else gmb_loop a b queue matching_blocks)"
  by pat_completeness auto
termination
proof (relation "measure (\<lambda>(a, b, queue, blocks). sum_list (map (\<lambda>(alo, ahi, blo, bhi). 2 * (ahi - alo) + 1) queue))", goal_cases)
  case 1
  show ?case by simp
next
  case (2 a b alo ahi blo bhi queue matching_blocks i y j k queue1 queue2)
  then have flm: "find_longest_match a b alo ahi blo bhi = (i, j, k)" and k: "k \<noteq> 0" by auto
  have bnd: "alo \<le> i" "i + k \<le> ahi" using find_longest_match_bounds [OF flm k] by auto
  have q1: "sum_list (map (\<lambda>(alo, ahi, blo, bhi). 2 * (ahi - alo) + 1) queue1)
              \<le> sum_list (map (\<lambda>(alo, ahi, blo, bhi). 2 * (ahi - alo) + 1) queue) + (2 * (i - alo) + 1)"
    using 2(4) by simp
  have q2: "sum_list (map (\<lambda>(alo, ahi, blo, bhi). 2 * (ahi - alo) + 1) queue2)
              \<le> sum_list (map (\<lambda>(alo, ahi, blo, bhi). 2 * (ahi - alo) + 1) queue1) + (2 * (ahi - (i + k)) + 1)"
    using 2(5) by simp
  have "(2 * (i - alo) + 1) + (2 * (ahi - (i + k)) + 1) < 2 * (ahi - alo) + 1"
    using bnd k by arith
  with q1 q2 show ?case by simp
next
  case (3 a b alo ahi blo bhi queue matching_blocks i y j k)
  show ?case by simp
qed


text \<open>The pass that merges adjacent blocks, run on the sorted list; then the sentinel.\<close>

fun collapse_loop ::
  "(nat \<times> nat \<times> nat) list \<Rightarrow> nat \<times> nat \<times> nat \<Rightarrow> (nat \<times> nat \<times> nat) list \<Rightarrow> (nat \<times> nat \<times> nat) list" where
  "collapse_loop [] (i1, j1, k1) non_adjacent =
     (if k1 \<noteq> 0 then non_adjacent @ [(i1, j1, k1)] else non_adjacent)"
| "collapse_loop ((i2, j2, k2) # rest) (i1, j1, k1) non_adjacent =
     (if i1 + k1 = i2 \<and> j1 + k1 = j2 then collapse_loop rest (i1, j1, k1 + k2) non_adjacent
      else collapse_loop rest (i2, j2, k2)
             (if k1 \<noteq> 0 then non_adjacent @ [(i1, j1, k1)] else non_adjacent))"

definition get_matching_blocks :: "'a list \<Rightarrow> 'a list \<Rightarrow> (nat \<times> nat \<times> nat) list" where
  "get_matching_blocks a b =
     (let la = length a; lb = length b;
          matching_blocks = sort (gmb_loop a b [(0, la, 0, lb)] [])
      in collapse_loop matching_blocks (0, 0, 0) [] @ [(la, lb, 0)])"

text \<open>\<^verbatim>\<open>ratio\<close>, with \<^verbatim>\<open>_calculate_ratio\<close>.\<close>

definition ratio :: "'a list \<Rightarrow> 'a list \<Rightarrow> exn + rat" where
  "ratio a b =
     (let matches = sum_list (map (\<lambda>(i, j, k). k) (get_matching_blocks a b));
          len = length a + length b
      in if len \<noteq> 0 then py_div (2 * matches) len else Inr 1)"

section \<open>Line similarity and segment extraction\<close>

definition calculate_line_similarity :: "config \<Rightarrow> string \<Rightarrow> string \<Rightarrow> exn + rat" where
  "calculate_line_similarity cfg code1 code2 =
     (let lines1 = split_on (CHR 0x0A) (preprocess_cpp cfg code1);
          lines2 = split_on (CHR 0x0A) (preprocess_cpp cfg code2)
      in ratio lines1 lines2)"

record segment =
  file1_start_line :: nat
  file2_start_line :: nat
  length_seg :: nat
  file1_segment :: string
  file2_segment :: string
  similarity :: rat

text \<open>The slice \<^verbatim>\<open>xs[i:j]\<close> for indices that are not negative.\<close>

definition py_slice :: "'a list \<Rightarrow> nat \<Rightarrow> nat \<Rightarrow> 'a list" where
  "py_slice xs i j = take (j - i) (drop i xs)"

fun segments_loop :: "string \<Rightarrow> string \<Rightarrow> nat \<Rightarrow> (nat \<times> nat \<times> nat) list \<Rightarrow> exn + segment list" where
  "segments_loop code1 code2 min_length [] = Inr []"
| "segments_loop code1 code2 min_length ((i, j, sz) # rest) =
     (if sz \<ge> min_length then
        (let original_lines1 = split_on (CHR 0x0A) code1;
             original_lines2 = split_on (CHR 0x0A) code2;
             i_end = min (i + sz) (length original_lines1);
             j_end = min (j + sz) (length original_lines2);
             segment1 = join [CHR 0x0A] (py_slice original_lines1 i i_end);
             segment2 = join [CHR 0x0A] (py_slice original_lines2 j j_end)
         in exn_bind (ratio segment1 segment2) (\<lambda>sim.
            exn_bind (segments_loop code1 code2 min_length rest) (\<lambda>segs.
              Inr (\<lparr>file1_start_line = i + 1, file2_start_line = j + 1, length_seg = sz,
                    file1_segment = segment1, file2_segment = segment2, similarity = sim\<rparr> # segs))))
      else segments_loop code1 code2 min_length rest)"

text \<open>
  The final \<^verbatim>\<open>sort(key=..., reverse=True)\<close> is stable: segments of equal similarity keep
  their order.
\<close>

definition identify_similar_segments :: "config \<Rightarrow> string \<Rightarrow> string \<Rightarrow> nat \<Rightarrow> exn + segment list" where
  "identify_similar_segments cfg code1 code2 min_length =
     (let processed1 = preprocess_cpp cfg code1;
          processed2 = preprocess_cpp cfg code2;
          lines1 = split_on (CHR 0x0A) processed1;
          lines2 = split_on (CHR 0x0A) processed2;
          matching_blocks = get_matching_blocks lines1 lines2
      in exn_bind (segments_loop code1 code2 min_length matching_blocks) (\<lambda>suspicious_segments.
           Inr (sort_key (\<lambda>x. - similarity x) suspicious_segments)))"

section \<open>Aggregator: \<^verbatim>\<open>check_similarity\<close>\<close>

record report =
  similarity_level :: string
  overall_similarity :: rat
  moss_similarity :: rat
  structure_similarity :: rat
  line_similarity :: rat
  suspicious_segments :: "segment list"

text \<open>
  The result of \<^verbatim>\<open>check_similarity\<close>: the report dictionary, or the dictionary with the
  single key \<^verbatim>\<open>error\<close> that the \<^verbatim>\<open>except\<close> clause builds from the exception.
\<close>

datatype result = Report report | ErrorResult exn

text \<open>The body of the \<^verbatim>\<open>try\<close> block; the calls use the default \<open>k = 5\<close>, \<open>w = 10\<close>
  and \<open>min_length = 3\<close>.\<close>

definition check_similarity_body :: "config \<Rightarrow> (string \<Rightarrow> nat) \<Rightarrow> string \<Rightarrow> string \<Rightarrow> exn + report" where
  "check_similarity_body cfg md5 code1 code2 =
     exn_bind (calculate_moss_similarity cfg md5 code1 code2 5 10) (\<lambda>moss_sim.
     exn_bind (calculate_structure_similarity code1 code2) (\<lambda>structure_sim.
     exn_bind (calculate_line_similarity cfg code1 code2) (\<lambda>line_sim.
       (let overall_sim = 5 / 10 * moss_sim + 3 / 10 * structure_sim + 2 / 10 * line_sim;
            level = (if overall_sim \<ge> 8 / 10 then ''Very High''
                     else if overall_sim \<ge> 6 / 10 then ''High''
                     else if overall_sim \<ge> 4 / 10 then ''Moderate''
                     else if overall_sim \<ge> 2 / 10 then ''Low''
                     else ''Very Low'')
        in exn_bind (identify_similar_segments cfg code1 code2 3) (\<lambda>segs.
             Inr \<lparr>similarity_level = level, overall_similarity = overall_sim,
                  moss_similarity = moss_sim, structure_similarity = structure_sim,
                  line_similarity = line_sim, suspicious_segments = take 5 segs\<rparr>)))))"

definition check_similarity :: "config \<Rightarrow> (string \<Rightarrow> nat) \<Rightarrow> string \<Rightarrow> string \<Rightarrow> result" where
  "check_similarity cfg md5 code1 code2 =
     (case check_similarity_body cfg md5 code1 code2 of
        Inr report \<Rightarrow> Report report
      | Inl e \<Rightarrow> ErrorResult e)"

section \<open>Properties of the exception plumbing\<close>

lemma exn_bind_Inr_iff: "exn_bind m f = Inr y \<longleftrightarrow> (\<exists>x. m = Inr x \<and> f x = Inr y)"
  by (cases m) (auto simp: exn_bind_def)

lemma exn_bind_Inr [simp]: "exn_bind (Inr x) f = f x"
  by (simp add: exn_bind_def)

lemma exn_bind_Inl [simp]: "exn_bind (Inl e) f = Inl e"
  by (simp add: exn_bind_def)

section \<open>The aggregator\<close>

lemma aggregator_scores:
  assumes "check_similarity cfg md5 code1 code2 = Report r"
  shows "calculate_moss_similarity cfg md5 code1 code2 5 10 = Inr (moss_similarity r)
       \<and> calculate_structure_similarity code1 code2 = Inr (structure_similarity r)
       \<and> calculate_line_similarity cfg code1 code2 = Inr (line_similarity r)
       \<and> overall_similarity r
           = 5 / 10 * moss_similarity r + 3 / 10 * structure_similarity r + 2 / 10 * line_similarity r
       \<and> (similarity_level r = ''Very High'' \<longleftrightarrow> 8 / 10 \<le> overall_similarity r)
       \<and> (similarity_level r = ''High'' \<longleftrightarrow> 6 / 10 \<le> overall_similarity r \<and> overall_similarity r < 8 / 10)
       \<and> (similarity_level r = ''Moderate'' \<longleftrightarrow> 4 / 10 \<le> overall_similarity r \<and> overall_similarity r < 6 / 10)
       \<and> (similarity_level r = ''Low'' \<longleftrightarrow> 2 / 10 \<le> overall_similarity r \<and> overall_similarity r < 4 / 10)
       \<and> (similarity_level r = ''Very Low'' \<longleftrightarrow> overall_similarity r < 2 / 10)"
proof -
  from assms have body: "check_similarity_body cfg md5 code1 code2 = Inr r"
    by (auto simp: check_similarity_def split: sum.splits)
  then obtain m s l segs where
    m: "calculate_moss_similarity cfg md5 code1 code2 5 10 = Inr m" and
    s: "calculate_structure_similarity code1 code2 = Inr s" and
    l: "calculate_line_similarity cfg code1 code2 = Inr l" and
    r: "r = \<lparr>similarity_level =
               (if 5 / 10 * m + 3 / 10 * s + 2 / 10 * l \<ge> 8 / 10 then ''Very High''
                else if 5 / 10 * m + 3 / 10 * s + 2 / 10 * l \<ge> 6 / 10 then ''High''
                else if 5 / 10 * m + 3 / 10 * s + 2 / 10 * l \<ge> 4 / 10 then ''Moderate''
                else if 5 / 10 * m + 3 / 10 * s + 2 / 10 * l \<ge> 2 / 10 then ''Low''
                else ''Very Low''),
             overall_similarity = 5 / 10 * m + 3 / 10 * s + 2 / 10 * l,
             moss_similarity = m, structure_similarity = s, line_similarity = l,
             suspicious_segments = take 5 segs\<rparr>"
    unfolding check_similarity_body_def exn_bind_Inr_iff Let_def by auto
  show ?thesis unfolding r using m s l by simp
qed


text \<open>
  Claim C8. Whenever \<^verbatim>\<open>check_similarity\<close> returns a report, its three sub-scores are the
  results of the three analyses, the overall score is
  \<open>0.5 * fingerprint + 0.3 * structural + 0.2 * line\<close>, and the level is read off the
  overall score by inclusive lower bounds taken top-down: at least 0.8 is "Very High",
  at least 0.6 "High", at least 0.4 "Moderate", at least 0.2 "Low", anything below
  "Very Low".
\<close>

theorem aggregator_formula_and_levels:
  assumes "check_similarity cfg md5 code1 code2 = Report r"
  shows "calculate_moss_similarity cfg md5 code1 code2 5 10 = Inr (moss_similarity r)
       \<and> calculate_structure_similarity code1 code2 = Inr (structure_similarity r)
       \<and> calculate_line_similarity cfg code1 code2 = Inr (line_similarity r)
       \<and> overall_similarity r
           = 5 / 10 * moss_similarity r + 3 / 10 * structure_similarity r + 2 / 10 * line_similarity r
       \<and> (similarity_level r = ''Very High'' \<longleftrightarrow> 8 / 10 \<le> overall_similarity r)
       \<and> (similarity_level r = ''High'' \<longleftrightarrow> 6 / 10 \<le> overall_similarity r \<and> overall_similarity r < 8 / 10)
       \<and> (similarity_level r = ''Moderate'' \<longleftrightarrow> 4 / 10 \<le> overall_similarity r \<and> overall_similarity r < 6 / 10)
       \<and> (similarity_level r = ''Low'' \<longleftrightarrow> 2 / 10 \<le> overall_similarity r \<and> overall_similarity r < 4 / 10)
       \<and> (similarity_level r = ''Very Low'' \<longleftrightarrow> overall_similarity r < 2 / 10)"
  by (rule aggregator_scores [OF assms])

theorem aggregator_formula_and_levels_witness:
  "check_similarity default_config length ''a'' ''1''
     = Report \<lparr>similarity_level = ''Low'', overall_similarity = 3 / 10,
               moss_similarity = 0, structure_similarity = 1, line_similarity = 0,
               suspicious_segments = []\<rparr>
   \<and> calculate_moss_similarity default_config length ''a'' ''1'' 5 10 = Inr 0
   \<and> calculate_structure_similarity ''a'' ''1'' = Inr 1
   \<and> calculate_line_similarity default_config ''a'' ''1'' = Inr 0
   \<and> (3 / 10 :: rat) = 5 / 10 * 0 + 3 / 10 * 1 + 2 / 10 * 0
   \<and> (2 / 10 :: rat) \<le> 3 / 10 \<and> (3 / 10 :: rat) < 4 / 10"
proof -
  have h: "check_similarity default_config length ''a'' ''1''
     = Report \<lparr>similarity_level = ''Low'', overall_similarity = 3 / 10,
               moss_similarity = 0, structure_similarity = 1, line_similarity = 0,
               suspicious_segments = []\<rparr>"
    by code_simp
  from aggregator_formula_and_levels [OF h] h show ?thesis by simp
qed

section \<open>The fingerprint engine\<close>

lemma py_min_Min:
  assumes "window \<noteq> []"
  shows "py_min window = Inr (Min (set window))"
proof (cases window)
  case Nil
  then show ?thesis using assms by simp
next
  case (Cons a list)
  show ?thesis
    using Min.set_eq_fold [of a list] by (simp add: Cons py_min_def)
qed

lemma py_index_leftmost: "v \<in> set xs \<Longrightarrow> py_index xs v = Inr (leftmost_pos xs v)"
  by (induction xs) auto

lemma map_snd_enumerate_comp: "map (\<lambda>p. f (snd p)) (enumerate n xs) = map f xs"
  by (induction xs arbitrary: n) auto

lemma winnow_loop_spec:
  assumes "\<And>p. p \<in> set ws \<Longrightarrow> snd p \<noteq> []"
  shows "\<exists>fps'. winnow_loop ws fps = Inr fps'
           \<and> map fst fps' = foldl append_if_differs (map fst fps) (map (\<lambda>p. fst (leftmost_min (snd p))) ws)"
  using assms
proof (induction ws arbitrary: fps)
  case Nil
  then show ?case by simp
next
  case (Cons p ws)
  obtain i window where p: "p = (i, window)" by (cases p)
  have ne: "window \<noteq> []" using Cons.prems [of p] p by simp
  let ?m = "Min (set window)"
  have mem: "?m \<in> set window" using ne by simp
  have rest: "\<And>q. q \<in> set ws \<Longrightarrow> snd q \<noteq> []" using Cons.prems by simp
  show ?case
  proof (cases "fps = [] \<or> fst (last fps) \<noteq> ?m")
    case True
    from Cons.IH [OF rest, of "fps @ [(?m, leftmost_pos window ?m + i)]"]
    obtain fps' where r: "winnow_loop ws (fps @ [(?m, leftmost_pos window ?m + i)]) = Inr fps'"
      "map fst fps' = foldl append_if_differs (map fst (fps @ [(?m, leftmost_pos window ?m + i)]))
                        (map (\<lambda>p. fst (leftmost_min (snd p))) ws)"
      by blast
    have "append_if_differs (map fst fps) ?m = map fst fps @ [?m]"
      using True by (auto simp: append_if_differs_def last_map)
    then show ?thesis
      using True r ne mem
      by (simp add: p py_min_Min py_index_leftmost leftmost_min_def Let_def)
  next
    case False
    from Cons.IH [OF rest, of fps]
    obtain fps' where r: "winnow_loop ws fps = Inr fps'"
      "map fst fps' = foldl append_if_differs (map fst fps) (map (\<lambda>p. fst (leftmost_min (snd p))) ws)"
      by blast
    have "append_if_differs (map fst fps) ?m = map fst fps"
      using False by (auto simp: append_if_differs_def last_map)
    then show ?thesis
      using False r ne mem
      by (simp add: p py_min_Min py_index_leftmost leftmost_min_def Let_def)
  qed
qed

lemma winnow_eq_spec:
  assumes "0 < w"
  shows "winnow hashes w = Inr (winnow_spec hashes w)"
proof (cases "length hashes < w")
  case True
  then show ?thesis by (simp add: winnow_def winnow_spec_def)
next
  case False
  let ?windows = "map (\<lambda>i. take w (drop i hashes)) [0..<length hashes - w + 1]"
  have ne: "\<And>p. p \<in> set (enumerate 0 ?windows) \<Longrightarrow> snd p \<noteq> []"
  proof -
    fix p assume "p \<in> set (enumerate 0 ?windows)"
    then have "snd p \<in> set ?windows" by (metis in_set_zipE enumerate_eq_zip prod.collapse)
    then obtain i where "i < length hashes - w + 1" "snd p = take w (drop i hashes)"
      by (auto simp del: upt_Suc)
    then show "snd p \<noteq> []" using False assms by auto
  qed
  have "\<exists>fps'. winnow_loop (enumerate 0 ?windows) [] = Inr fps'
           \<and> map fst fps' = foldl append_if_differs (map fst ([] :: (nat \<times> nat) list))
                 (map (\<lambda>p. fst (leftmost_min (snd p))) (enumerate 0 ?windows))"
    by (rule winnow_loop_spec) (rule ne)
  then obtain fps' where r: "winnow_loop (enumerate 0 ?windows) [] = Inr fps'"
    "map fst fps' = foldl append_if_differs [] (map (\<lambda>p. fst (leftmost_min (snd p))) (enumerate 0 ?windows))"
    by auto
  have eq: "map (\<lambda>p. fst (leftmost_min (snd p))) (enumerate 0 ?windows)
          = map (\<lambda>i. fst (leftmost_min (take w (drop i hashes)))) [0..<length hashes - w + 1]"
    using map_snd_enumerate_comp [of "\<lambda>win. fst (leftmost_min win)" 0 ?windows]
    by (simp only: map_map comp_def)
  have "winnow_loop (enumerate 0 ?windows) [] = Inr fps'" by (rule r(1))
  moreover have "map fst fps' = winnow_spec hashes w"
    using False r(2) [unfolded eq] by (simp only: winnow_spec_def if_False)
  ultimately show ?thesis
    using False by (simp only: winnow_def Let_def if_False exn_bind_def sum.case)
qed

lemma moss_eq_jaccard:
  assumes "0 < w"
  shows "calculate_moss_similarity cfg md5 code1 code2 k w =
           Inr (jaccard_spec (set (winnow_spec (get_kgram_hashes md5 (preprocess_cpp cfg code1) k) w))
                             (set (winnow_spec (get_kgram_hashes md5 (preprocess_cpp cfg code2) k) w)))"
proof -
  have "card (set xs \<union> set ys) \<noteq> 0" if "set xs \<noteq> {}" for xs ys :: "nat list"
    using that by simp
  then show ?thesis
    by (simp add: calculate_moss_similarity_def Let_def winnow_eq_spec [OF assms] jaccard_spec_def py_div_def)
qed

text \<open>
  Claim C6. For every hash list and every window size \<open>w > 0\<close>, \<^verbatim>\<open>winnow\<close> returns
  without raising and computes the winnowing of the specification: the whole list when it
  is shorter than \<open>w\<close>, otherwise the minimum (at its leftmost position) of each window of
  \<open>w\<close> consecutive hashes, appended only when it differs from the hash appended last.
  The fingerprint similarity is the Jaccard similarity of the two fingerprint sets, and 0
  when either set is empty. (The position stored with each fingerprint is dropped from the
  result. A window size of 0 has empty windows, for which \<^verbatim>\<open>min\<close> raises.)
\<close>

theorem winnow_refines_spec:
  assumes "0 < w"
  shows "winnow hashes w = Inr (winnow_spec hashes w)
       \<and> calculate_moss_similarity cfg md5 code1 code2 k w =
           Inr (jaccard_spec (set (winnow_spec (get_kgram_hashes md5 (preprocess_cpp cfg code1) k) w))
                             (set (winnow_spec (get_kgram_hashes md5 (preprocess_cpp cfg code2) k) w)))"
  using winnow_eq_spec [OF assms] moss_eq_jaccard [OF assms] by simp

theorem winnow_refines_spec_witness:
  "(0 :: nat) < 4
   \<and> winnow [5, 3, 8, 3, 9, 1, 7, 1, 1, 4, 6, 2] 4 = Inr [3, 1]
   \<and> calculate_moss_similarity default_config length ''a b c'' ''a b 1'' 2 4 = Inr (1 / 2)"
proof -
  have a: "winnow_spec [5, 3, 8, 3, 9, 1, 7, 1, 1, 4, 6, 2] 4 = [3, 1]"
    by code_simp
  have b: "jaccard_spec
             (set (winnow_spec (get_kgram_hashes length (preprocess_cpp default_config ''a b c'') 2) 4))
             (set (winnow_spec (get_kgram_hashes length (preprocess_cpp default_config ''a b 1'') 2) 4))
           = 1 / 2"
    by code_simp
  have c: "(0 :: nat) < 4" by simp
  from winnow_refines_spec [OF c, of "[5, 3, 8, 3, 9, 1, 7, 1, 1, 4, 6, 2]" default_config length "''a b c''" "''a b 1''" 2]
  show ?thesis by (simp only: a b c simp_thms)
qed

text \<open>
  Claim C7. If the normalized rendering of either input has fewer than \<open>k\<close> tokens (a blank
  input has none), \<^verbatim>\<open>calculate_moss_similarity\<close> returns 0 whatever the other input is,
  and it returns normally: no exception is raised. The window size is any \<open>w > 0\<close>, the
  default 10 among them.
\<close>

theorem short_input_moss_zero:
  assumes "0 < w"
    and "length (split_ws (preprocess_cpp cfg code1)) < k \<or> length (split_ws (preprocess_cpp cfg code2)) < k"
  shows "calculate_moss_similarity cfg md5 code1 code2 k w = Inr 0"
proof -
  have "get_kgram_hashes md5 (preprocess_cpp cfg code1) k = [] \<or> get_kgram_hashes md5 (preprocess_cpp cfg code2) k = []"
    using assms(2) by (auto simp: get_kgram_hashes_def Let_def)
  moreover have "winnow_spec [] w = []" using assms(1) by (simp add: winnow_spec_def)
  ultimately show ?thesis
    by (auto simp: moss_eq_jaccard [OF assms(1)] jaccard_spec_def)
qed


theorem short_input_moss_zero_witness:
  "(0 :: nat) < 10
   \<and> length (split_ws (preprocess_cpp default_config [])) < 5
   \<and> calculate_moss_similarity default_config length [] ''int main() { return 0; }'' 5 10 = Inr 0"
proof -
  have a: "(0 :: nat) < 10" by simp
  have b: "length (split_ws (preprocess_cpp default_config [])) < 5" by code_simp
  from short_input_moss_zero [OF a disjI1 [OF b], of length "''int main() { return 0; }''"] a b
  show ?thesis by simp
qed

section \<open>The control-keyword profile\<close>

lemma control_keys:
  "map fst (control_structures (extract_structure code)) = [''if'', ''else'', ''for'', ''while'', ''switch'', ''case'']"
  by (simp add: extract_structure_def)

lemma control_similarity_Inr:
  "control_similarity ctrl1 ctrl2 =
     Inr (let all_keys = set (map fst ctrl1) \<union> set (map fst ctrl2);
              differences = (\<Sum>key\<in>all_keys. nat \<bar>int (dict_get ctrl1 key 0) - int (dict_get ctrl2 key 0)\<bar>);
              max_possible_diff = (\<Sum>key\<in>all_keys. max (dict_get ctrl1 key 0) (dict_get ctrl2 key 0))
          in if all_keys = {} \<or> max_possible_diff = 0 then 1
             else 1 - of_nat differences / of_nat max_possible_diff)"
  by (simp add: control_similarity_def Let_def py_div_def)

lemma dict_get_zero:
  assumes "\<forall>p \<in> set d. snd p = 0"
  shows "dict_get d key 0 = 0"
proof (cases "map_of d key")
  case None
  then show ?thesis by (simp add: dict_get_def)
next
  case (Some v)
  then have "(key, v) \<in> set d" by (rule map_of_SomeD)
  with assms have "v = 0" by auto
  with Some show ?thesis by (simp add: dict_get_def)
qed

text \<open>
  Claim C10. For every input the control-structure dictionary of the extracted profile has
  exactly the six keys \<^verbatim>\<open>if\<close>, \<^verbatim>\<open>else\<close>, \<^verbatim>\<open>for\<close>, \<^verbatim>\<open>while\<close>, \<^verbatim>\<open>switch\<close>, \<^verbatim>\<open>case\<close>,
  each once, with a natural number as count. So in \<^verbatim>\<open>control_similarity\<close> the union of
  the keys of two profiles is never empty, the function returns a value for every pair of
  inputs (the division is never by zero), and the value is 1 when all counts on both
  sides are zero.
\<close>

theorem control_profile_six_keys:
  "map fst (control_structures (extract_structure code)) = [''if'', ''else'', ''for'', ''while'', ''switch'', ''case'']
   \<and> distinct (map fst (control_structures (extract_structure code)))
   \<and> set (map fst (control_structures (extract_structure code1)))
        \<union> set (map fst (control_structures (extract_structure code2))) \<noteq> {}
   \<and> (\<exists>v. control_similarity (control_structures (extract_structure code1))
                              (control_structures (extract_structure code2)) = Inr v)
   \<and> ((\<forall>p \<in> set (control_structures (extract_structure code1))
              \<union> set (control_structures (extract_structure code2)). snd p = 0)
        \<longrightarrow> control_similarity (control_structures (extract_structure code1))
                               (control_structures (extract_structure code2)) = Inr 1)"
proof -
  have zero: "control_similarity c1 c2 = Inr 1" if "\<forall>p \<in> set c1 \<union> set c2. snd p = 0" for c1 c2
  proof -
    have "dict_get c1 key 0 = 0" "dict_get c2 key 0 = 0" for key
      using that by (auto intro: dict_get_zero)
    then show ?thesis by (simp add: control_similarity_Inr Let_def)
  qed
  have 1: "map fst (control_structures (extract_structure code))
             = [''if'', ''else'', ''for'', ''while'', ''switch'', ''case'']"
    by (rule control_keys)
  have 2: "distinct (map fst (control_structures (extract_structure code)))"
    by (simp add: control_keys)
  have 3: "set (map fst (control_structures (extract_structure code1)))
             \<union> set (map fst (control_structures (extract_structure code2))) \<noteq> {}"
    by (simp add: control_keys)
  have 4: "\<exists>v. control_similarity (control_structures (extract_structure code1))
                                 (control_structures (extract_structure code2)) = Inr v"
    by (simp only: control_similarity_Inr) blast
  have 5: "(\<forall>p \<in> set (control_structures (extract_structure code1))
              \<union> set (control_structures (extract_structure code2)). snd p = 0)
        \<longrightarrow> control_similarity (control_structures (extract_structure code1))
                               (control_structures (extract_structure code2)) = Inr 1"
    using zero by blast
  from 1 2 3 4 5 show ?thesis by (intro conjI)
qed

theorem control_profile_six_keys_witness:
  "control_structures (extract_structure ''x = y;'')
     = [(''if'', 0), (''else'', 0), (''for'', 0), (''while'', 0), (''switch'', 0), (''case'', 0)]
   \<and> control_structures (extract_structure ''iffy();'')
     = [(''if'', 0), (''else'', 0), (''for'', 0), (''while'', 0), (''switch'', 0), (''case'', 0)]
   \<and> control_similarity (control_structures (extract_structure ''x = y;''))
                         (control_structures (extract_structure ''iffy();'')) = Inr 1"
proof -
  have a: "control_structures (extract_structure ''x = y;'')
     = [(''if'', 0), (''else'', 0), (''for'', 0), (''while'', 0), (''switch'', 0), (''case'', 0)]"
    by code_simp
  have b: "control_structures (extract_structure ''iffy();'')
     = [(''if'', 0), (''else'', 0), (''for'', 0), (''while'', 0), (''switch'', 0), (''case'', 0)]"
    by code_simp
  have z: "\<forall>p \<in> set (control_structures (extract_structure ''x = y;''))
           \<union> set (control_structures (extract_structure ''iffy();'')). snd p = 0"
    unfolding a b by simp
  from control_profile_six_keys [of "''x = y;''" "''x = y;''" "''iffy();''"] z
  have "control_similarity (control_structures (extract_structure ''x = y;''))
                         (control_structures (extract_structure ''iffy();'')) = Inr 1"
    by blast
  with a b show ?thesis by blast
qed

section \<open>The entry point returns a result\<close>

lemma ratio_Inr: "\<exists>v. ratio a b = Inr v"
  by (simp add: ratio_def Let_def py_div_def)

lemma segments_loop_Inr: "\<exists>segs. segments_loop code1 code2 min_length blocks = Inr segs"
proof (induction blocks)
  case Nil
  then show ?case by simp
next
  case (Cons blk blocks)
  obtain i j sz where blk: "blk = (i, j, sz)" by (cases blk)
  from Cons obtain segs where s: "segments_loop code1 code2 min_length blocks = Inr segs" by blast
  show ?case
  proof (cases "sz \<ge> min_length")
    case True
    obtain v where "ratio (join [CHR 0x0A] (py_slice (split_on (CHR 0x0A) code1) i (min (i + sz) (length (split_on (CHR 0x0A) code1)))))
                          (join [CHR 0x0A] (py_slice (split_on (CHR 0x0A) code2) j (min (j + sz) (length (split_on (CHR 0x0A) code2))))) = Inr v"
      using ratio_Inr by blast
    then show ?thesis using True s by (simp add: blk Let_def)
  next
    case False
    then show ?thesis using s by (simp add: blk)
  qed
qed

lemma count_similarity_Inr: "\<exists>v. count_similarity c1 c2 = Inr v"
  by (simp add: count_similarity_def Let_def py_div_def)

lemma structure_similarity_Inr: "\<exists>v. calculate_structure_similarity code1 code2 = Inr v"
proof -
  obtain f where f: "count_similarity (functions (extract_structure code1)) (functions (extract_structure code2)) = Inr f"
    using count_similarity_Inr by blast
  obtain c where c: "count_similarity (classes (extract_structure code1)) (classes (extract_structure code2)) = Inr c"
    using count_similarity_Inr by blast
  show ?thesis
    by (simp add: calculate_structure_similarity_def Let_def f c control_similarity_Inr)
qed

lemma check_similarity_body_Inr:
  "\<exists>r. check_similarity_body cfg md5 code1 code2 = Inr r \<and> length (suspicious_segments r) \<le> 5"
proof -
  obtain m where m: "calculate_moss_similarity cfg md5 code1 code2 5 10 = Inr m"
    using moss_eq_jaccard [of 10] by simp
  obtain s where s: "calculate_structure_similarity code1 code2 = Inr s"
    using structure_similarity_Inr by blast
  obtain l where l: "calculate_line_similarity cfg code1 code2 = Inr l"
    using ratio_Inr by (auto simp: calculate_line_similarity_def Let_def)
  obtain segs0 where "segments_loop code1 code2 3
      (get_matching_blocks (split_on (CHR 0x0A) (preprocess_cpp cfg code1))
                           (split_on (CHR 0x0A) (preprocess_cpp cfg code2))) = Inr segs0"
    using segments_loop_Inr by blast
  then obtain segs where g: "identify_similar_segments cfg code1 code2 3 = Inr segs"
    by (simp add: identify_similar_segments_def Let_def)
  show ?thesis
    by (simp add: check_similarity_body_def m s l g Let_def)
qed

lemma check_similarity_total: "\<exists>r. check_similarity cfg md5 code1 code2 = Report r"
  using check_similarity_body_Inr [of cfg md5 code1 code2]
  by (auto simp: check_similarity_def)

text \<open>
  Claim C9. For every configuration, hash function and pair of inputs, the entry point
  \<^verbatim>\<open>check_similarity\<close> returns a result value and no exception reaches the caller. The
  \<^verbatim>\<open>try\<close>/\<^verbatim>\<open>except\<close> of the entry point is the only place where an exception of the
  body becomes the error-carrying result; on text inputs, with the default \<open>k\<close>, \<open>w\<close> and
  minimum length, the body raises none of the modelled exceptions, so the result is the
  report the body computed, with at most five suspicious segments.
\<close>

theorem check_similarity_never_raises:
  "\<exists>r. check_similarity cfg md5 code1 code2 = Report r
       \<and> check_similarity_body cfg md5 code1 code2 = Inr r
       \<and> length (suspicious_segments r) \<le> 5"
  using check_similarity_body_Inr [of cfg md5 code1 code2]
  by (auto simp: check_similarity_def)

section \<open>Whitespace normalization leaves a single line\<close>

text \<open>
  With \<^verbatim>\<open>ignore_whitespace\<close> on, every newline of the input is replaced by a space before
  the text is tokenized, and no later step makes a newline: the normalized text is one line.
\<close>

lemma isspace_newline: "isspace (CHR 0x0A)"
  by (simp add: isspace_def)

lemma collapse_ws_no_newline: "CHR 0x0A \<notin> set (collapse_ws s)"
  by (induction s rule: collapse_ws.induct) (auto simp: isspace_newline)

lemma strip_op_ws_subset: "set (strip_op_ws s) \<subseteq> set s"
proof (induction s rule: strip_op_ws.induct)
  case 1
  show ?case by simp
next
  case (2 c cs)
  show ?case
  proof (cases "dropWhile isspace (c # cs)")
    case Nil
    then show ?thesis using 2(1) by auto
  next
    case (Cons x rest)
    have sub: "set (x # rest) \<subseteq> set (c # cs)"
      using set_dropWhileD [of _ isspace "c # cs"] Cons by auto
    show ?thesis
    proof (cases "isop x")
      case True
      have "set (strip_op_ws (dropWhile isspace rest)) \<subseteq> set (dropWhile isspace rest)"
        using 2(2) [OF Cons True] .
      also have "\<dots> \<subseteq> set rest" using set_dropWhileD by fastforce
      finally show ?thesis using sub Cons True by auto
    next
      case False
      then show ?thesis using 2(3) [OF Cons False] Cons by auto
    qed
  qed
qed

lemma digit_char_no_newline:
  assumes "k < 10"
  shows "digit_char k \<noteq> CHR 0x0A"
proof
  assume "digit_char k = CHR 0x0A"
  then have "(of_char (digit_char k) :: nat) = of_char (CHR 0x0A)" by simp
  then have "(48 + k) mod 256 = 10" by (simp add: digit_char_def)
  with assms show False by simp
qed

lemma str_nat_no_newline: "CHR 0x0A \<notin> set (str_nat n)"
proof (induction n rule: str_nat.induct)
  case (1 n)
  show ?case
  proof (cases "n < 10")
    case True
    then show ?thesis using digit_char_no_newline [of n] by (subst str_nat.simps) auto
  next
    case False
    have "n mod 10 < 10" by simp
    then have "digit_char (n mod 10) \<noteq> CHR 0x0A" by (rule digit_char_no_newline)
    then show ?thesis using False 1 by (subst str_nat.simps) auto
  qed
qed


definition clean_map :: "(string \<rightharpoonup> string) \<Rightarrow> bool" where
  "clean_map m = (\<forall>w v. m w = Some v \<longrightarrow> CHR 0x0A \<notin> set v)"

lemma skip_string_no_newline: "CHR 0x0A \<notin> set xs \<Longrightarrow> CHR 0x0A \<notin> set (skip_string q xs)"
  by (induction q xs rule: skip_string.induct) auto

lemma tokenize_no_newline:
  assumes "CHR 0x0A \<notin> set s" and "clean_map m"
  shows "\<forall>t \<in> set (tokenize s m n). CHR 0x0A \<notin> set t"
  using assms
proof (induction "length s" arbitrary: s m n rule: less_induct)
  case less
  show ?case
  proof (cases s)
    case Nil
    then show ?thesis by simp
  next
    case (Cons c cs)
    have c: "c \<noteq> CHR 0x0A" and cs: "CHR 0x0A \<notin> set cs" using less.prems(1) Cons by auto
    have dw: "CHR 0x0A \<notin> set (dropWhile P cs)" for P
      using cs set_dropWhileD [of "CHR 0x0A" P cs] by blast
    have tw: "CHR 0x0A \<notin> set (takeWhile P cs)" for P
      using cs set_takeWhileD [of "CHR 0x0A" P cs] by blast
    have ih: "\<forall>t \<in> set (tokenize s' m' n'). CHR 0x0A \<notin> set t"
      if "length s' \<le> length cs" "CHR 0x0A \<notin> set s'" "clean_map m'" for s' m' n'
      using less.hyps [of s' m' n'] that Cons by simp
    show ?thesis
    proof (cases "isalpha c \<or> c = CHR ''_''")
      case alpha: True
      then have w: "isword c" by (auto simp: isword_def isalnum_def)
      let ?word = "c # takeWhile isword cs" and ?rest = "dropWhile isword cs"
      have word: "CHR 0x0A \<notin> set ?word" using c tw by simp
      have rest: "length ?rest \<le> length cs" by (rule length_dropWhile_le)
      let ?v = "''VAR_'' @ str_nat n"
      have v: "CHR 0x0A \<notin> set ?v" using str_nat_no_newline by simp
      have m': "clean_map (m(?word \<mapsto> ?v))"
        using less.prems(2) v unfolding clean_map_def by (simp del: append.simps)
      have unfold: "tokenize s m n =
          (if ?word \<in> set cpp_keywords then ?word # tokenize ?rest m n
           else (case m ?word of
                   None \<Rightarrow> ?v # tokenize ?rest (m(?word \<mapsto> ?v)) (n + 1)
                 | Some u \<Rightarrow> u # tokenize ?rest m n))"
        using alpha w by (simp add: Cons Let_def)
      show ?thesis
      proof (cases "m ?word")
        case None
        then show ?thesis
          using ih [OF rest dw less.prems(2)] ih [OF rest dw m'] word v
          by (simp only: unfold) (auto simp del: append.simps)
      next
        case (Some u)
        then have "CHR 0x0A \<notin> set u" using less.prems(2) unfolding clean_map_def by blast
        then show ?thesis
          using Some ih [OF rest dw less.prems(2)] word
          by (simp only: unfold) auto
      qed
    next
      case na: False
      show ?thesis
      proof (cases "isdigit c")
        case True
        have "tokenize s m n = ''NUM'' # tokenize (dropWhile (\<lambda>x. isdigit x \<or> x = CHR ''.'') cs) m n"
          using na True by (simp add: Cons)
        then show ?thesis using ih [OF length_dropWhile_le dw less.prems(2)] by simp
      next
        case nd: False
        show ?thesis
        proof (cases "c = CHR 0x22 \<or> c = CHR 0x27")
          case True
          have "tokenize s m n = ''STR'' # tokenize (skip_string c cs) m n"
            using na nd True by (simp add: Cons)
          then show ?thesis
            using ih [OF skip_string_length skip_string_no_newline [OF cs] less.prems(2)] by simp
        next
          case False
          have "tokenize s m n = [c] # tokenize cs m n"
            using na nd False by (simp add: Cons)
          then show ?thesis using ih [OF le_refl cs less.prems(2)] c by simp
        qed
      qed
    qed
  qed
qed

lemma join_no_newline:
  assumes "\<forall>t \<in> set ts. CHR 0x0A \<notin> set t"
  shows "CHR 0x0A \<notin> set (join '' '' ts)"
  using assms by (induction "'' ''" ts rule: join.induct) auto

lemma preprocess_no_newline:
  assumes "ignore_whitespace cfg"
  shows "CHR 0x0A \<notin> set (preprocess_cpp cfg code)"
proof -
  have ws: "CHR 0x0A \<notin> set (strip_op_ws (collapse_ws s))" for s
    using strip_op_ws_subset [of "collapse_ws s"] collapse_ws_no_newline [of s] by blast
  have tk: "CHR 0x0A \<notin> set (join '' '' (tokenize (strip_op_ws (collapse_ws s)) Map.empty 0))" for s
    by (rule join_no_newline) (rule tokenize_no_newline [OF ws], simp add: clean_map_def)
  show ?thesis using assms ws tk by (simp add: preprocess_cpp_def Let_def)
qed

lemma split_on_absent: "d \<notin> set s \<Longrightarrow> split_on d s = [s]"
  by (induction s) auto


lemma b2j_singleton: "b2j [q] p = (if q = p then [0] else [])"
  by (simp add: b2j_def)

lemma find_longest_match_singleton:
  "find_longest_match [p] [q] 0 (Suc 0) 0 (Suc 0) = (if p = q then (0, 0, 1) else (0, 0, 0))"
  by (simp add: find_longest_match_def b2j_singleton extend_left.simps extend_right.simps)

lemma get_matching_blocks_singleton:
  "get_matching_blocks [p] [q] = (if p = q then [(0, 0, 1), (1, 1, 0)] else [(1, 1, 0)])"
proof (cases "p = q")
  case True
  then show ?thesis by (simp add: get_matching_blocks_def find_longest_match_singleton)
next
  case False
  then show ?thesis by (simp add: get_matching_blocks_def find_longest_match_singleton)
qed

lemma ratio_singleton: "ratio [p] [q] = Inr (if p = q then 1 else 0)"
  by (simp add: ratio_def get_matching_blocks_singleton py_div_def)

lemma line_similarity_one_line:
  assumes "ignore_whitespace cfg"
  shows "calculate_line_similarity cfg code1 code2
           = Inr (if preprocess_cpp cfg code1 = preprocess_cpp cfg code2 then 1 else 0)"
  by (simp add: calculate_line_similarity_def Let_def ratio_singleton
        split_on_absent [OF preprocess_no_newline [OF assms]])

lemma segments_one_line:
  assumes "ignore_whitespace cfg" and "2 \<le> min_length"
  shows "identify_similar_segments cfg code1 code2 min_length = Inr []"
  using assms(2)
  by (simp add: identify_similar_segments_def Let_def get_matching_blocks_singleton
        split_on_absent [OF preprocess_no_newline [OF assms(1)]])


section \<open>Segment extraction\<close>

text \<open>
  Claim C2. Two inputs that differ by one moved block of four lines should give a matching
  segment of at least four lines with local similarity 1. Under the default configuration
  \<^verbatim>\<open>identify_similar_segments\<close> returns the empty list for every pair of inputs: whitespace
  normalization has replaced each newline by a space, so both line lists have one element
  and no matching block reaches the minimum length 3. With whitespace and identifier
  normalization off, the same function finds the moved block
  \<^verbatim>\<open>p; q; r; s;\<close> as one segment of length 4 with similarity 1.
\<close>

theorem default_config_reports_no_segment:
  "identify_similar_segments default_config code1 code2 3 = Inr []
   \<and> identify_similar_segments lines_config
        ''p;\<newline>q;\<newline>r;\<newline>s;\<newline>x;\<newline>y;'' ''x;\<newline>y;\<newline>p;\<newline>q;\<newline>r;\<newline>s;'' 3
       = Inr [\<lparr>file1_start_line = 1, file2_start_line = 3, length_seg = 4,
                file1_segment = ''p;\<newline>q;\<newline>r;\<newline>s;'', file2_segment = ''p;\<newline>q;\<newline>r;\<newline>s;'',
                similarity = 1\<rparr>]"
proof -
  have "ignore_whitespace default_config" by (simp add: default_config_def)
  then have a: "identify_similar_segments default_config code1 code2 3 = Inr []"
    by (simp add: segments_one_line)
  have b: "identify_similar_segments lines_config
        ''p;\<newline>q;\<newline>r;\<newline>s;\<newline>x;\<newline>y;'' ''x;\<newline>y;\<newline>p;\<newline>q;\<newline>r;\<newline>s;'' 3
       = Inr [\<lparr>file1_start_line = 1, file2_start_line = 3, length_seg = 4,
                file1_segment = ''p;\<newline>q;\<newline>r;\<newline>s;'', file2_segment = ''p;\<newline>q;\<newline>r;\<newline>s;'',
                similarity = 1\<rparr>]"
    by code_simp
  from a b show ?thesis by (rule conjI)
qed


section \<open>Identical inputs\<close>

lemma foldl_append_if_differs_nonempty:
  "acc \<noteq> [] \<or> xs \<noteq> [] \<Longrightarrow> foldl append_if_differs acc xs \<noteq> []"
proof (induction xs arbitrary: acc)
  case Nil
  then show ?case by simp
next
  case (Cons x xs)
  have "append_if_differs acc x \<noteq> []" by (simp add: append_if_differs_def)
  then show ?case using Cons.IH [of "append_if_differs acc x"] by simp
qed

lemma winnow_spec_nonempty: "hashes \<noteq> [] \<Longrightarrow> winnow_spec hashes w \<noteq> []"
  by (auto simp: winnow_spec_def intro!: foldl_append_if_differs_nonempty simp del: upt_Suc foldl_append)

lemma kgram_hashes_nonempty:
  "k \<le> length (split_ws code) \<Longrightarrow> get_kgram_hashes md5 code k \<noteq> []"
  by (simp add: get_kgram_hashes_def Let_def del: upt_Suc)

lemma jaccard_spec_self: "finite A \<Longrightarrow> A \<noteq> {} \<Longrightarrow> jaccard_spec A A = 1"
  by (simp add: jaccard_spec_def)

lemma count_similarity_self: "count_similarity c c = Inr 1"
  by (simp add: count_similarity_def Let_def py_div_def)

lemma control_similarity_self: "control_similarity c c = Inr 1"
  by (simp add: control_similarity_Inr Let_def)

lemma structure_similarity_self: "calculate_structure_similarity code code = Inr 1"
  by (simp add: calculate_structure_similarity_def Let_def count_similarity_self control_similarity_self)

text \<open>
  Claim C1, amended. Under the default configuration, for every input whose normalized
  rendering has at least five tokens (the k-gram size), comparing the input with itself
  returns a report with fingerprint, structural and line sub-scores 1, overall score 1
  and the level "Very High". Nothing is said about the list of suspicious segments.
\<close>

theorem identical_inputs_score_one:
  assumes "5 \<le> length (split_ws (preprocess_cpp default_config code))"
  shows "\<exists>r. check_similarity default_config md5 code code = Report r
           \<and> moss_similarity r = 1 \<and> structure_similarity r = 1 \<and> line_similarity r = 1
           \<and> overall_similarity r = 1 \<and> similarity_level r = ''Very High''"
proof -
  have ws: "ignore_whitespace default_config" by (simp add: default_config_def)
  let ?F = "set (winnow_spec (get_kgram_hashes md5 (preprocess_cpp default_config code) 5) 10)"
  have "?F \<noteq> {}"
    using winnow_spec_nonempty [OF kgram_hashes_nonempty [OF assms]] by simp
  then have moss: "calculate_moss_similarity default_config md5 code code 5 10 = Inr 1"
    by (simp add: moss_eq_jaccard jaccard_spec_self)
  have line: "calculate_line_similarity default_config code code = Inr 1"
    by (simp add: line_similarity_one_line [OF ws])
  obtain r where r: "check_similarity default_config md5 code code = Report r"
    using check_similarity_total by blast
  from aggregator_scores [OF r] moss line
  have scores: "moss_similarity r = 1" "structure_similarity r = 1" "line_similarity r = 1"
    and overall: "overall_similarity r
           = 5 / 10 * moss_similarity r + 3 / 10 * structure_similarity r + 2 / 10 * line_similarity r"
    and level: "similarity_level r = ''Very High'' \<longleftrightarrow> 8 / 10 \<le> overall_similarity r"
    by (simp_all add: structure_similarity_self)
  have one: "overall_similarity r = 1" using overall scores by simp
  then have "similarity_level r = ''Very High''" using level by simp
  with r scores one show ?thesis by blast
qed

theorem identical_inputs_score_one_witness:
  "5 \<le> length (split_ws (preprocess_cpp default_config ''int main() { return 0; }''))
   \<and> (\<exists>r. check_similarity default_config length ''int main() { return 0; }'' ''int main() { return 0; }''
              = Report r
          \<and> moss_similarity r = 1 \<and> structure_similarity r = 1 \<and> line_similarity r = 1
          \<and> overall_similarity r = 1 \<and> similarity_level r = ''Very High'')"
proof -
  have h: "5 \<le> length (split_ws (preprocess_cpp default_config ''int main() { return 0; }''))"
    by code_simp
  from identical_inputs_score_one [OF h, of length] h show ?thesis by blast
qed

text \<open>
  The claim as stated, for every input, fails on the blank input: it has no k-gram, the
  fingerprint similarity is 0 by the guard on empty fingerprint sets, the overall score is
  0.5 and the level "Moderate".
\<close>

theorem identical_inputs_counterexample:
  "check_similarity default_config length [] []
     = Report \<lparr>similarity_level = ''Moderate'', overall_similarity = 1 / 2,
               moss_similarity = 0, structure_similarity = 1, line_similarity = 1,
               suspicious_segments = []\<rparr>"
  by code_simp


section \<open>Symmetry\<close>

lemma jaccard_spec_commute: "jaccard_spec A B = jaccard_spec B A"
  by (auto simp: jaccard_spec_def Int_commute Un_commute)

lemma moss_commute:
  "calculate_moss_similarity cfg md5 a b 5 10 = calculate_moss_similarity cfg md5 b a 5 10"
  by (simp add: moss_eq_jaccard jaccard_spec_commute [of "set (winnow_spec (get_kgram_hashes md5 (preprocess_cpp cfg a) 5) 10)"])

lemma count_similarity_commute: "count_similarity c1 c2 = count_similarity c2 c1"
  by (auto simp: count_similarity_def Let_def multiset_inter_commute [of c1 c2]
        subset_mset.sup_commute [of c1 c2])

lemma control_similarity_commute: "control_similarity c1 c2 = control_similarity c2 c1"
proof -
  let ?K = "set (map fst c1) \<union> set (map fst c2)"
  have K: "set (map fst c2) \<union> set (map fst c1) = ?K" by (rule Un_commute)
  have d: "(\<Sum>key\<in>?K. nat \<bar>int (dict_get c2 key 0) - int (dict_get c1 key 0)\<bar>)
             = (\<Sum>key\<in>?K. nat \<bar>int (dict_get c1 key 0) - int (dict_get c2 key 0)\<bar>)"
    by (simp add: abs_minus_commute)
  have m: "(\<Sum>key\<in>?K. max (dict_get c2 key 0) (dict_get c1 key 0))
             = (\<Sum>key\<in>?K. max (dict_get c1 key 0) (dict_get c2 key 0))"
    by (simp add: max.commute)
  show ?thesis unfolding control_similarity_Inr Let_def K d m ..
qed

lemma structure_similarity_commute:
  "calculate_structure_similarity a b = calculate_structure_similarity b a"
  by (simp add: calculate_structure_similarity_def Let_def
        count_similarity_commute [of "functions (extract_structure a)"]
        count_similarity_commute [of "classes (extract_structure a)"]
        control_similarity_commute [of "control_structures (extract_structure a)"])

text \<open>
  Claim C5, amended. For every configuration with \<^verbatim>\<open>ignore_whitespace\<close> on (the default
  among them), every hash function and every pair of inputs \<open>a\<close>, \<open>b\<close>,
  \<^verbatim>\<open>check_similarity(a, b)\<close> and \<^verbatim>\<open>check_similarity(b, a)\<close> return the same report: the
  same fingerprint, structural and line sub-scores, overall score and level. The
  fingerprint and the structural sub-score are symmetric under every configuration.
\<close>

theorem check_similarity_symmetric_one_line:
  "calculate_moss_similarity cfg md5 a b 5 10 = calculate_moss_similarity cfg md5 b a 5 10
   \<and> calculate_structure_similarity a b = calculate_structure_similarity b a
   \<and> (ignore_whitespace cfg \<longrightarrow>
        (\<exists>r. check_similarity cfg md5 a b = Report r \<and> check_similarity cfg md5 b a = Report r))"
proof -
  have "\<exists>r. check_similarity cfg md5 a b = Report r \<and> check_similarity cfg md5 b a = Report r"
    if ws: "ignore_whitespace cfg"
  proof -
    have line: "calculate_line_similarity cfg a b = calculate_line_similarity cfg b a"
      by (auto simp: line_similarity_one_line [OF ws])
    have segs: "identify_similar_segments cfg a b 3 = identify_similar_segments cfg b a 3"
      by (simp add: segments_one_line [OF ws])
    have "check_similarity_body cfg md5 a b = check_similarity_body cfg md5 b a"
      unfolding check_similarity_body_def
      by (simp only: moss_commute [of cfg md5 a b] structure_similarity_commute [of a b] line segs)
    then have eq: "check_similarity cfg md5 b a = check_similarity cfg md5 a b"
      by (simp add: check_similarity_def)
    obtain r where r: "check_similarity cfg md5 a b = Report r"
      using check_similarity_total by blast
    show ?thesis using r eq by simp
  qed
  then show ?thesis
    using moss_commute [of cfg md5 a b] structure_similarity_commute [of a b] by blast
qed

theorem check_similarity_symmetric_one_line_witness:
  "ignore_whitespace default_config
   \<and> (\<exists>r. check_similarity default_config length ''int a;'' ''b = 1'' = Report r
          \<and> check_similarity default_config length ''b = 1'' ''int a;'' = Report r)"
proof -
  have h: "ignore_whitespace default_config" by (simp add: default_config_def)
  from check_similarity_symmetric_one_line [of default_config length "''int a;''" "''b = 1''"] h
  show ?thesis by blast
qed

text \<open>
  With \<^verbatim>\<open>ignore_whitespace\<close> off the line lists have several elements, and the ratio of
  \<^verbatim>\<open>difflib.SequenceMatcher\<close> depends on the order of its arguments: the lines
  \<^verbatim>\<open>t, i, d, e\<close> against \<^verbatim>\<open>d, i, e, t\<close> give line similarity 1/4 one way and 1/2 the
  other, and the overall scores 7/20 and 2/5.
\<close>

theorem symmetry_counterexample:
  "check_similarity lines_config length ''t\<newline>i\<newline>d\<newline>e'' ''d\<newline>i\<newline>e\<newline>t''
     = Report \<lparr>similarity_level = ''Low'', overall_similarity = 7 / 20,
               moss_similarity = 0, structure_similarity = 1, line_similarity = 1 / 4,
               suspicious_segments = []\<rparr>
   \<and> check_similarity lines_config length ''d\<newline>i\<newline>e\<newline>t'' ''t\<newline>i\<newline>d\<newline>e''
     = Report \<lparr>similarity_level = ''Moderate'', overall_similarity = 2 / 5,
               moss_similarity = 0, structure_similarity = 1, line_similarity = 1 / 2,
               suspicious_segments = []\<rparr>"
  by code_simp



section \<open>The normalizer without identifier normalization\<close>

text \<open>
  Claim C3, amended. When \<^verbatim>\<open>normalize_identifiers\<close> is off, \<^verbatim>\<open>preprocess_cpp\<close> does not
  tokenize at all: its output is the input text after the comment removal and the
  whitespace normalization that the other two options select, with literals, identifiers
  and the remaining spacing unchanged.
\<close>

theorem untokenized_when_not_normalizing:
  assumes "\<not> normalize_identifiers cfg"
  shows "preprocess_cpp cfg code =
           (if ignore_whitespace cfg
            then strip_op_ws (collapse_ws
                   (if ignore_comments cfg then remove_line_comments (remove_block_comments code) else code))
            else (if ignore_comments cfg then remove_line_comments (remove_block_comments code) else code))"
  using assms by (simp add: preprocess_cpp_def Let_def)

theorem untokenized_when_not_normalizing_witness:
  "\<not> normalize_identifiers literal_config
   \<and> preprocess_cpp literal_config ''x  =  12 ; // c'' = ''x=12;''"
proof -
  have h: "\<not> normalize_identifiers literal_config" by (simp add: literal_config_def)
  have v: "strip_op_ws (collapse_ws (remove_line_comments (remove_block_comments ''x  =  12 ; // c''))) = ''x=12;''"
    by code_simp
  from untokenized_when_not_normalizing [OF h, of "''x  =  12 ; // c''"] h v
  show ?thesis by (simp add: literal_config_def)
qed

text \<open>
  The claim as stated has the literals replaced by marker tokens and the tokens joined by
  single spaces; the code returns the stripped text instead.
\<close>

theorem literal_tokens_counterexample:
  "preprocess_cpp literal_config ''s = \"a b\" + 12'' = ''s=\"a b\"+12''
   \<and> normalizer_spec literal_config ''s = \"a b\" + 12'' = ''s = STR + NUM''"
  by code_simp


section \<open>Idempotence of the normalizer\<close>

text \<open>
  After whitespace normalization every whitespace character is a single space that
  neither follows nor precedes an operator character nor another space; such a text is
  left unchanged by both substitutions.
\<close>

lemma isop_not_space: "isop c \<Longrightarrow> \<not> isspace c"
  by (auto simp: isop_def isspace_def)

definition starts_ws :: "string \<Rightarrow> bool" where
  "starts_ws r = (case r of [] \<Rightarrow> False | c # _ \<Rightarrow> isspace c)"

definition starts_op :: "string \<Rightarrow> bool" where
  "starts_op r = (case r of [] \<Rightarrow> False | c # _ \<Rightarrow> isop c)"

fun collapsed :: "string \<Rightarrow> bool" where
  "collapsed [] = True"
| "collapsed (c # r) = ((isspace c \<longrightarrow> c = CHR '' '' \<and> \<not> starts_ws r) \<and> collapsed r)"

fun ws_normal :: "string \<Rightarrow> bool" where
  "ws_normal [] = True"
| "ws_normal (c # r) =
     ((isspace c \<longrightarrow> c = CHR '' '' \<and> \<not> starts_ws r \<and> \<not> starts_op r)
      \<and> (isop c \<longrightarrow> \<not> starts_ws r) \<and> ws_normal r)"

lemma dropWhile_not_starts_ws [simp]: "\<not> starts_ws (dropWhile isspace r)"
  by (induction r) (auto simp: starts_ws_def)

lemma dropWhile_id: "\<not> starts_ws r \<Longrightarrow> dropWhile isspace r = r"
  by (cases r) (auto simp: starts_ws_def)

lemma collapse_ws_starts: "\<not> starts_ws r \<Longrightarrow> \<not> starts_ws (collapse_ws r)"
  by (cases r) (auto simp: starts_ws_def)

lemma collapsed_collapse_ws: "collapsed (collapse_ws x)"
  by (induction x rule: collapse_ws.induct) (auto simp: collapse_ws_starts)

lemma collapsed_dropWhile: "collapsed r \<Longrightarrow> collapsed (dropWhile P r)"
  by (induction r) auto

lemma strip_op_ws_head:
  assumes "\<not> isspace c"
  shows "\<exists>t. strip_op_ws (c # cs) = c # t"
  using assms by (auto split: list.splits)

lemma strip_op_ws_starts: "\<not> starts_ws r \<Longrightarrow> \<not> starts_ws (strip_op_ws r)"
proof (cases r)
  case Nil
  then show ?thesis by (simp add: starts_ws_def)
next
  case (Cons c cs)
  assume "\<not> starts_ws r"
  then have c: "\<not> isspace c" by (simp add: Cons starts_ws_def)
  from strip_op_ws_head [OF c] obtain t where "strip_op_ws (c # cs) = c # t" by blast
  then show ?thesis using c by (simp add: Cons starts_ws_def)
qed

lemma ws_normal_strip_op_ws:
  assumes "collapsed z"
  shows "ws_normal (strip_op_ws z)"
  using assms
proof (induction "length z" arbitrary: z rule: less_induct)
  case less
  show ?case
  proof (cases z)
    case Nil
    then show ?thesis by simp
  next
    case (Cons c cs)
    have col: "collapsed cs" and sp: "isspace c \<longrightarrow> c = CHR '' '' \<and> \<not> starts_ws cs"
      using less.prems Cons by auto
    have ih: "ws_normal (strip_op_ws s')" if "length s' \<le> length cs" "collapsed s'" for s'
      using less.hyps [of s'] that Cons by simp
    have keep: "ws_normal (c # strip_op_ws cs)" if "\<not> isop c" "isspace c \<longrightarrow> \<not> starts_op cs"
    proof -
      have n: "ws_normal (strip_op_ws cs)" using ih [OF le_refl col] .
      show ?thesis
      proof (cases "isspace c")
        case False
        then show ?thesis using n that by simp
      next
        case True
        then have c: "c = CHR '' ''" and nws: "\<not> starts_ws cs" and nop: "\<not> starts_op cs"
          using sp that by auto
        have "\<not> starts_ws (strip_op_ws cs) \<and> \<not> starts_op (strip_op_ws cs)"
        proof (cases cs)
          case Nil
          then show ?thesis by (simp add: starts_ws_def starts_op_def)
        next
          case (Cons x rest)
          then have x: "\<not> isspace x" "\<not> isop x" using nws nop by (auto simp: starts_ws_def starts_op_def)
          from strip_op_ws_head [OF x(1)] obtain t where "strip_op_ws (x # rest) = x # t" by blast
          then show ?thesis using x Cons by (simp add: starts_ws_def starts_op_def)
        qed
        then show ?thesis using n True c that by simp
      qed
    qed
    have drop: "ws_normal (x # strip_op_ws (dropWhile isspace rest))"
      if "isop x" "collapsed rest" "length rest \<le> length cs" for x rest
    proof -
      have "length (dropWhile isspace rest) \<le> length cs"
        using that(3) length_dropWhile_le [of isspace rest] by simp
      then have n: "ws_normal (strip_op_ws (dropWhile isspace rest))"
        using ih collapsed_dropWhile [OF that(2)] by blast
      have "\<not> starts_ws (strip_op_ws (dropWhile isspace rest))"
        by (rule strip_op_ws_starts) simp
      then show ?thesis using n that(1) isop_not_space [OF that(1)] by simp
    qed
    show ?thesis
    proof (cases "isspace c")
      case False
      then have dw: "dropWhile isspace (c # cs) = c # cs" by simp
      show ?thesis
      proof (cases "isop c")
        case True
        have "strip_op_ws z = c # strip_op_ws (dropWhile isspace cs)"
          using False True by (simp add: Cons)
        then show ?thesis using drop [OF True col le_refl] by simp
      next
        case nop: False
        have "strip_op_ws z = c # strip_op_ws cs"
          using False nop by (simp add: Cons)
        then show ?thesis using keep [OF nop] False by simp
      qed
    next
      case True
      then have nws: "\<not> starts_ws cs" using sp by simp
      have dw: "dropWhile isspace (c # cs) = cs" using True dropWhile_id [OF nws] by simp
      show ?thesis
      proof (cases cs)
        case Nil
        then have "strip_op_ws z = [c]" using True by (simp add: Cons)
        then show ?thesis using sp True by (simp add: starts_ws_def starts_op_def)
      next
        case (Cons x rest)
        note cs = this
        show ?thesis
        proof (cases "isop x")
          case opx: True
          have "strip_op_ws z = x # strip_op_ws (dropWhile isspace rest)"
            using dw opx by (simp add: \<open>z = c # cs\<close> cs del: dropWhile.simps)
          moreover have "collapsed rest" "length rest \<le> length cs" using col cs by auto
          ultimately show ?thesis using drop [OF opx] by simp
        next
          case nopx: False
          have "strip_op_ws z = c # strip_op_ws cs"
            using dw nopx by (simp add: \<open>z = c # cs\<close> cs del: dropWhile.simps)
          moreover have "\<not> isop c" using True isop_not_space by blast
          moreover have "\<not> starts_op cs" using nopx cs by (simp add: starts_op_def)
          ultimately show ?thesis using keep by simp
        qed
      qed
    qed
  qed
qed

lemma ws_normal_collapse_ws: "ws_normal y \<Longrightarrow> collapse_ws y = y"
proof (induction y)
  case Nil
  show ?case by simp
next
  case (Cons c y)
  then show ?case by (auto simp: dropWhile_id)
qed

lemma ws_normal_strip_op_ws_id: "ws_normal y \<Longrightarrow> strip_op_ws y = y"
proof (induction y)
  case Nil
  show ?case by simp
next
  case (Cons c y)
  then have ih: "strip_op_ws y = y" and n: "ws_normal (c # y)" by auto
  show ?case
  proof (cases "isspace c")
    case True
    then have nws: "\<not> starts_ws y" and nop: "\<not> starts_op y" using n by auto
    have dw: "dropWhile isspace (c # y) = y" using True dropWhile_id [OF nws] by simp
    show ?thesis
    proof (cases y)
      case Nil
      then show ?thesis using True by simp
    next
      case (Cons x rest)
      then have "\<not> isop x" using nop by (simp add: starts_op_def)
      then show ?thesis using dw ih Cons by (simp del: dropWhile.simps)
    qed
  next
    case False
    show ?thesis
    proof (cases "isop c")
      case True
      then have "\<not> starts_ws y" using n by simp
      then show ?thesis using False True ih by (simp add: dropWhile_id)
    next
      case nop: False
      then show ?thesis using False ih by simp
    qed
  qed
qed

lemma whitespace_step_idempotent:
  "strip_op_ws (collapse_ws (strip_op_ws (collapse_ws x))) = strip_op_ws (collapse_ws x)"
proof -
  have "ws_normal (strip_op_ws (collapse_ws x))"
    by (rule ws_normal_strip_op_ws) (rule collapsed_collapse_ws)
  then show ?thesis by (simp add: ws_normal_collapse_ws ws_normal_strip_op_ws_id)
qed


text \<open>
  Claim C4, amended. For every input text and every configuration with comment removal
  and identifier normalization off, \<^verbatim>\<open>preprocess_cpp\<close> is idempotent: applied to its own
  output it returns that output (whitespace normalization, the only step left, is
  idempotent).
\<close>

theorem whitespace_only_idempotent:
  assumes "\<not> ignore_comments cfg" and "\<not> normalize_identifiers cfg"
  shows "preprocess_cpp cfg (preprocess_cpp cfg code) = preprocess_cpp cfg code"
  using assms by (simp add: preprocess_cpp_def Let_def whitespace_step_idempotent)

theorem whitespace_only_idempotent_witness:
  "\<not> ignore_comments whitespace_config \<and> \<not> normalize_identifiers whitespace_config
   \<and> preprocess_cpp whitespace_config ''a  = b ;  c'' = ''a=b;c''
   \<and> preprocess_cpp whitespace_config ''a=b;c'' = ''a=b;c''"
proof -
  have h: "\<not> ignore_comments whitespace_config" "\<not> normalize_identifiers whitespace_config"
    by (simp_all add: whitespace_config_def)
  have v: "preprocess_cpp whitespace_config ''a  = b ;  c'' = ''a=b;c''" by code_simp
  from whitespace_only_idempotent [OF h, of "''a  = b ;  c''"] h v show ?thesis by simp
qed

text \<open>
  With identifier normalization on, the marker \<^verbatim>\<open>NUM\<close> of the first pass is read as an
  identifier by the second pass and renamed. With comment removal on, removing one
  comment can put the two halves of a comment opener together:
  \<^verbatim>\<open>//**/* x */\<close> becomes \<^verbatim>\<open>/* x */\<close>, which the second pass removes.
\<close>

theorem idempotence_counterexample:
  "preprocess_cpp default_config ''1'' = ''NUM''
   \<and> preprocess_cpp default_config (preprocess_cpp default_config ''1'') = ''VAR_0''
   \<and> preprocess_cpp lines_config ''//**/* x */'' = ''/* x */''
   \<and> preprocess_cpp lines_config (preprocess_cpp lines_config ''//**/* x */'') = []"
  by code_simp


end
